theory Spec2Isabelle
  imports Complex_Main
begin

section \<open>The module under verification\<close>

text \<open>
  The statistical tests of the repository live in the module \<^verbatim>\<open>poisson_test.py\<close>
  ("Utilities for testing poissoneity"). The repository snapshot holds it in compiled
  form (Python 2.7 byte code, stored after the LaTeX text of
  \<^verbatim>\<open>Logic Trees/gmpe_logic_tree_v2.tex\<close>); the functions below are embedded
  from its code objects, whose line numbers are quoted. The module starts with
  \<^verbatim>\<open>from __future__ import division\<close>, so \<^verbatim>\<open>/\<close> is true division.

  Conventions of the embedding:
  \<^item> in the tests IEEE doubles are idealised as real numbers (no rounding); the special
    values that the code can reach through \<^verbatim>\<open>0/0\<close>, \<^verbatim>\<open>x/0\<close> and \<^verbatim>\<open>log(0)\<close> are
    explicit (\<open>pyfloat\<close>), because numpy returns them with a warning instead of raising;
  \<^item> the Binner is embedded a second time with the double arithmetic of
    \<^verbatim>\<open>np.arange\<close> written out (\<open>count_events_f64\<close>), because rounding decides where
    its bin edges fall and how many there are;
  \<^item> a Python exception is a value \<open>Inl e\<close> of the result type \<open>error + 'a\<close>;
  \<^item> what a function prints in verbose mode is returned as a list of lines beside
    the value it returns;
  \<^item> the distribution functions of scipy (\<^verbatim>\<open>stats.chi2.sf\<close>, \<^verbatim>\<open>stats.norm.sf\<close>,
    \<^verbatim>\<open>stats.kstest\<close>, \<^verbatim>\<open>stats.anderson\<close>) are not part of the repository: a call of
    one of them is kept as a term that records the routine and its arguments.
\<close>

subsection \<open>Values\<close>

datatype error =
    AssertionError | ZeroDivisionError | UnboundLocalError
  | ValueError | IndexError | TypeError

datatype pyfloat = Fin real | PInf | NInf | NaN

text \<open>Floating-point addition, product with a finite constant, true division of finite
  numbers (numpy semantics: no exception) and \<^verbatim>\<open>np.log\<close>.\<close>

fun fadd :: "pyfloat \<Rightarrow> pyfloat \<Rightarrow> pyfloat" where
  "fadd (Fin x) (Fin y) = Fin (x + y)"
| "fadd NaN _ = NaN"
| "fadd _ NaN = NaN"
| "fadd PInf NInf = NaN"
| "fadd NInf PInf = NaN"
| "fadd PInf _ = PInf"
| "fadd _ PInf = PInf"
| "fadd NInf _ = NInf"
| "fadd _ NInf = NInf"

fun fscale :: "real \<Rightarrow> pyfloat \<Rightarrow> pyfloat" where
  "fscale k (Fin x) = Fin (k * x)"
| "fscale k NaN = NaN"
| "fscale k PInf = (if 0 < k then PInf else if k < 0 then NInf else NaN)"
| "fscale k NInf = (if 0 < k then NInf else if k < 0 then PInf else NaN)"

definition fdiv :: "real \<Rightarrow> real \<Rightarrow> pyfloat" where
  "fdiv x y =
     (if y \<noteq> 0 then Fin (x / y)
      else if x = 0 then NaN else if 0 < x then PInf else NInf)"

definition flog :: "real \<Rightarrow> pyfloat" where
  "flog x = (if 0 < x then Fin (ln x) else if x = 0 then NInf else NaN)"

text \<open>Python's built-in \<^verbatim>\<open>sum\<close>: starts at 0 and adds from the left.\<close>

definition fsum :: "pyfloat list \<Rightarrow> pyfloat" where
  "fsum xs = foldl fadd (Fin 0) xs"

text \<open>\<^verbatim>\<open>ndarray.mean()\<close>: NaN (with a warning) on an empty array.\<close>

definition np_mean :: "real list \<Rightarrow> pyfloat" where
  "np_mean xs = (if xs = [] then NaN else Fin (sum_list xs / real (length xs)))"

text \<open>Values that reach the caller or the terminal. The constructors after \<open>Float\<close>
  stand for the result of the scipy routine named, applied to the arguments given:
  \<^verbatim>\<open>stats.chi2.sf(x, df)\<close>, \<^verbatim>\<open>stats.norm.sf(x, loc)\<close>, the two components of
  \<^verbatim>\<open>stats.kstest(rvs, cdf)\<close>, the two components of Stouffer's method in
  \<^verbatim>\<open>stats.combine_pvalues\<close>, and the statistic and the critical value at one
  significance level of \<^verbatim>\<open>stats.anderson(x, dist)\<close>.\<close>

datatype pyval =
    Float pyfloat
  | Chi2_sf pyfloat int
  | Norm_sf pyfloat int
  | Kstest_statistic "pyfloat list" string
  | Kstest_pvalue "pyfloat list" string
  | Stouffer_statistic "real list"
  | Stouffer_pvalue "real list"
  | Anderson_statistic "real list" string
  | Anderson_critical "real list" string real

text \<open>A printed line: a literal, or a format string applied with \<^verbatim>\<open>%\<close> to values.\<close>

datatype line = Text string | Format string "pyval list"

text \<open>What a call of a test does: the lines it has printed and then either the exception
  it raised or the value it returned.\<close>

type_synonym outcome = "line list \<times> (error + pyval)"

subsection \<open>numpy: \<^verbatim>\<open>arange\<close> and \<^verbatim>\<open>histogram\<close>\<close>

text \<open>\<^verbatim>\<open>np.arange(start, stop, step)\<close> has \<open>ceil((stop - start)/step)\<close> elements
  (none if that is not positive), the \<open>i\<close>-th being \<open>start + i*step\<close>. The quotient is
  Python's, so a zero step raises.\<close>

definition arange :: "real \<Rightarrow> real \<Rightarrow> real \<Rightarrow> error + real list" where
  "arange start stop step =
     (if step = 0 then Inl ZeroDivisionError
      else Inr (map (\<lambda>i. start + real i * step) [0 ..< nat \<lceil>(stop - start) / step\<rceil>]))"

text \<open>The number of elements of \<open>a\<close> in the closed interval \<open>[lo, hi]\<close>.\<close>

definition count_in :: "real \<Rightarrow> real \<Rightarrow> real list \<Rightarrow> nat" where
  "count_in lo hi a = length (filter (\<lambda>t. lo \<le> t \<and> t \<le> hi) a)"

text \<open>\<^verbatim>\<open>np.histogram(a, bins=edges)[0]\<close> for an array of edges: every bin is half-open
  \<open>[lo, hi)\<close> but the last one, which is closed; values outside the edges are not counted.\<close>

fun bin_counts :: "real list \<Rightarrow> real list \<Rightarrow> nat list" where
  "bin_counts a [lo, hi] = [count_in lo hi a]"
| "bin_counts a (lo # hi # edges) =
     length (filter (\<lambda>t. lo \<le> t \<and> t < hi) a) # bin_counts a (hi # edges)"
| "bin_counts a edges = []"

fun increasing :: "real list \<Rightarrow> bool" where
  "increasing (x # y # xs) = (x \<le> y \<and> increasing (y # xs))"
| "increasing xs = True"

text \<open>Edges that decrease somewhere are refused; with no edge at all the last edge cannot
  be read when there is data (numpy 1.x, the releases for Python 2.7).\<close>

definition histogram :: "real list \<Rightarrow> real list \<Rightarrow> error + nat list" where
  "histogram a edges =
     (if \<not> increasing edges then Inl ValueError
      else if edges = [] \<and> a \<noteq> [] then Inl IndexError
      else Inr (bin_counts a edges))"

subsection \<open>The Binner: \<^verbatim>\<open>count_events\<close> (line 17)\<close>

text \<open>
  \<^verbatim>\<open>
  def count_events(times, time_range, t_step=1.0):
      bin_edges = np.arange(time_range[0], time_range[1] + 0.5*t_step, t_step)
      counts = np.histogram(times, bins=bin_edges)[0]
      return counts, bin_edges
  \<close>
\<close>

definition count_events ::
  "real list \<Rightarrow> real \<times> real \<Rightarrow> real \<Rightarrow> error + (nat list \<times> real list)" where
  "count_events times' time_range t_step =
     (case arange (fst time_range) (snd time_range + 0.5 * t_step) t_step of
        Inl e \<Rightarrow> Inl e
      | Inr bin_edges \<Rightarrow>
          (case histogram times' bin_edges of
             Inl e \<Rightarrow> Inl e
           | Inr counts \<Rightarrow> Inr (counts, bin_edges)))"

subsection \<open>Double precision\<close>

text \<open>
  Rounding to the nearest binary64 number, ties to even: a number \<open>x\<close> with
  \<open>2^e \<le> |x| < 2^(e+1)\<close> is rounded to a multiple of \<open>2^(e-52)\<close>. The exponent range
  is unbounded: overflow to infinity and gradual underflow are not modelled (they need
  magnitudes above \<open>1.8e308\<close> or below \<open>2.3e-308\<close>). \<open>rne\<close> rounds to the nearest
  integer, ties to even. A double is a number that rounding leaves unchanged.
\<close>

definition rne :: "real \<Rightarrow> int" where
  "rne y =
     (let f = \<lfloor>y\<rfloor>
      in if y - of_int f < 1 / 2 then f
         else if 1 / 2 < y - of_int f then f + 1
         else if even f then f else f + 1)"

definition float64 :: "real \<Rightarrow> real" where
  "float64 x =
     (if x = 0 then 0
      else let u = 2 powr (of_int \<lfloor>log 2 \<bar>x\<bar>\<rfloor> - 52)
           in of_int (rne (x / u)) * u)"

definition is_double :: "real \<Rightarrow> bool" where
  "is_double x = (float64 x = x)"

subsection \<open>The Binner in double precision\<close>

text \<open>
  \<^verbatim>\<open>np.arange(start, stop, step)\<close> as numpy computes it for Python floats: the length is
  the ceiling of the double quotient \<^verbatim>\<open>(stop - start)/step\<close>; the first element is
  \<open>start\<close>, the second the double sum \<^verbatim>\<open>start + step\<close>, and the \<open>i\<close>-th for
  \<open>i \<ge> 2\<close> is \<^verbatim>\<open>start + i*delta\<close> with \<^verbatim>\<open>delta = (start + step) - start\<close>, the
  product and the sum rounded one after the other. \<open>count_events_f64\<close> is
  \<^verbatim>\<open>count_events\<close> with this \<^verbatim>\<open>arange\<close> and with the two operations of
  \<^verbatim>\<open>time_range[1] + 0.5*t_step\<close> rounded; the arguments are doubles. The array of edges
  is taken to fit in memory: what numpy raises for a length that it cannot allocate is
  not modelled.
\<close>

definition edge_f64 :: "real \<Rightarrow> real \<Rightarrow> nat \<Rightarrow> real" where
  "edge_f64 start step i =
     (let next = float64 (start + step);
          delta = float64 (next - start)
      in if i = 0 then start
         else if i = 1 then next
         else float64 (start + float64 (real i * delta)))"

definition arange_f64 :: "real \<Rightarrow> real \<Rightarrow> real \<Rightarrow> error + real list" where
  "arange_f64 start stop step =
     (if step = 0 then Inl ZeroDivisionError
      else Inr (map (edge_f64 start step)
                  [0 ..< nat \<lceil>float64 (float64 (stop - start) / step)\<rceil>]))"

definition count_events_f64 ::
  "real list \<Rightarrow> real \<times> real \<Rightarrow> real \<Rightarrow> error + (nat list \<times> real list)" where
  "count_events_f64 times' time_range t_step =
     (case arange_f64 (fst time_range)
             (float64 (snd time_range + float64 (0.5 * t_step))) t_step of
        Inl e \<Rightarrow> Inl e
      | Inr bin_edges \<Rightarrow>
          (case histogram times' bin_edges of
             Inl e \<Rightarrow> Inl e
           | Inr counts \<Rightarrow> Inr (counts, bin_edges)))"

subsection \<open>The goodness-of-fit test: \<^verbatim>\<open>anderson_darling\<close> (line 144)\<close>

text \<open>
  \<^verbatim>\<open>
  def anderson_darling(times, distribution='expon', significance=5, verbose=False):
      assert distribution in ('norm', 'expon', 'logistic', 'gumbel', 'extreme1')
      statistic, critical_values, significance_levels = stats.anderson(
          times, dist=distribution)
      critical_value = critical_values[
          np.argwhere(significance_levels == significance)]
      if verbose:
          print 'statistic, significance, critical value: %g, %g%%, %.2g' % (
              statistic, significance, critical_value)
      return statistic
  \<close>
  The significance levels are those of \<^verbatim>\<open>stats.anderson\<close> for each distribution. The
  selection \<open>critical_value\<close> is an array with one entry for each level equal to
  \<open>significance\<close>; formatting it with \<^verbatim>\<open>%.2g\<close> needs exactly one entry.
\<close>

definition recognized :: "string list" where
  "recognized = [''norm'', ''expon'', ''logistic'', ''gumbel'', ''extreme1'']"

definition significance_levels :: "string \<Rightarrow> real list" where
  "significance_levels dist' =
     (if dist' = ''logistic'' then [25, 10, 5, 2.5, 1, 0.5]
      else if dist' = ''gumbel'' \<or> dist' = ''extreme1'' then [25, 10, 5, 2.5, 1]
      else [15, 10, 5, 2.5, 1])"

definition anderson_darling :: "real list \<Rightarrow> string \<Rightarrow> real \<Rightarrow> bool \<Rightarrow> outcome" where
  "anderson_darling times' distribution significance verbose =
     (if distribution \<notin> set recognized then ([], Inl AssertionError)
      else
        let statistic = Anderson_statistic times' distribution;
            critical_value =
              map (Anderson_critical times' distribution)
                (filter (\<lambda>l. l = significance) (significance_levels distribution))
        in if verbose then
             (if length critical_value = 1
              then ([Format ''statistic, significance, critical value: %g, %g%%, %.2g''
                       (statistic # Float (Fin significance) # critical_value)],
                    Inr statistic)
              else ([], Inl TypeError))
           else ([], Inr statistic))"

subsection \<open>The dispersion test: \<^verbatim>\<open>dispersion\<close> (line 45)\<close>

text \<open>
  \<^verbatim>\<open>
  def dispersion(times, time_range, t_step=1.0, verbose=False):
      counts = count_events(times, time_range, t_step=t_step)[0]
      mean = counts.mean()
      statistic = sum((counts - mean)**2/mean)
      p_value = stats.chi2.sf(statistic, len(counts) - 1)
      if verbose:
          print 'X_mean, chi_squared, p-value: %g, %g, %.2g' % (
              mean, statistic, p_value)
      return p_value
  \<close>
  The quotient by \<open>mean\<close> is taken element by element, so a zero mean gives \<open>0/0\<close> in
  every bin and no exception.
\<close>

definition dispersion :: "real list \<Rightarrow> real \<times> real \<Rightarrow> real \<Rightarrow> bool \<Rightarrow> outcome" where
  "dispersion times' time_range t_step verbose =
     (case count_events times' time_range t_step of
        Inl e \<Rightarrow> ([], Inl e)
      | Inr (counts, bin_edges) \<Rightarrow>
          let mean = np_mean (map real counts);
              statistic =
                fsum (map (\<lambda>c. case mean of Fin m \<Rightarrow> fdiv ((real c - m)\<^sup>2) m | _ \<Rightarrow> NaN)
                        counts);
              p_value = Chi2_sf statistic (int (length counts) - 1)
          in (if verbose
              then [Format ''X_mean, chi_squared, p-value: %g, %g, %.2g''
                      [Float mean, Float statistic, p_value]]
              else [],
              Inr p_value))"

subsection \<open>The variance-stabilized test: \<^verbatim>\<open>brown_zhao\<close> (line 67)\<close>

text \<open>
  \<^verbatim>\<open>
  def brown_zhao(times, time_range, t_step=1.0, verbose=False):
      """
      As described in Brown & Zhao (2002), makes use of the variance
      stabilizing transformation of Anscombe (1948).

      FIXME: Seems "over-sensitive"; can't figure out why.
      """
      counts = count_events(times, time_range, t_step=t_step)[0]
      transformed = np.sqrt(counts + 3/8)
      mean = transformed.mean()
      chi_squared = 4*sum((transformed - mean)**2)
      p_value = stats.norm.sf(chi_squared, len(counts) - 1)
      if verbose:
          print 'Y_mean, chi_squared, p-value: %g, %g, %.2g' % (
              mean, chi_squared, p_value)
      return p_value
  \<close>
  The second argument of \<^verbatim>\<open>stats.norm.sf\<close> is the location of the normal distribution.
\<close>

definition brown_zhao :: "real list \<Rightarrow> real \<times> real \<Rightarrow> real \<Rightarrow> bool \<Rightarrow> outcome" where
  "brown_zhao times' time_range t_step verbose =
     (case count_events times' time_range t_step of
        Inl e \<Rightarrow> ([], Inl e)
      | Inr (counts, bin_edges) \<Rightarrow>
          let transformed = map (\<lambda>c. sqrt (real c + 3 / 8)) counts;
              mean = np_mean transformed;
              chi_squared =
                fscale 4
                  (fsum (map (\<lambda>y. case mean of Fin m \<Rightarrow> Fin ((y - m)\<^sup>2) | _ \<Rightarrow> NaN)
                           transformed));
              p_value = Norm_sf chi_squared (int (length counts) - 1)
          in (if verbose
              then [Format ''Y_mean, chi_squared, p-value: %g, %g, %.2g''
                      [Float mean, Float chi_squared, p_value]]
              else [],
              Inr p_value))"

subsection \<open>The interval tests: \<^verbatim>\<open>kolmogorov_smirnov\<close> (line 90)\<close>

text \<open>
  \<^verbatim>\<open>
  def kolmogorov_smirnov(times, time_range, dist, mean_wait=None,
                         t_step=1.0, verbose=False):
      duration = time_range[1] - time_range[0]
      if mean_wait is None:
          if verbose and dist == 'expon':
              print 'WARNING: Using inferred mean wait'
          mean_wait = duration/len(times)
      if dist == 'expon':
          normalized = np.diff(times)/mean_wait
      elif dist == 'uniform':
          normalized = np.array(times - time_range[0])/duration
      statistic, pvalue = stats.kstest(normalized, dist)
      if verbose:
          print 'mean wait, statistic, p-value: %g, %g, %.2g' % (
              mean_wait, statistic, pvalue)
      return pvalue
  \<close>
  \<open>time_range\<close> holds Python numbers, so \<open>duration/len(times)\<close> raises on an empty
  catalog; the two quotients of arrays follow numpy. With any other \<open>dist\<close> the
  variable \<open>normalized\<close> is unbound when it is read. \<^verbatim>\<open>stats.kstest\<close> takes the
  maximum of an array as long as the sample, which raises on an empty sample.
\<close>

fun np_diff :: "real list \<Rightarrow> real list" where
  "np_diff (x # y # xs) = (y - x) # np_diff (y # xs)"
| "np_diff xs = []"

definition kstest :: "pyfloat list \<Rightarrow> string \<Rightarrow> error + (pyval \<times> pyval)" where
  "kstest rvs cdf =
     (if rvs = [] then Inl ValueError
      else Inr (Kstest_statistic rvs cdf, Kstest_pvalue rvs cdf))"

definition kolmogorov_smirnov ::
  "real list \<Rightarrow> real \<times> real \<Rightarrow> string \<Rightarrow> real option \<Rightarrow> real \<Rightarrow> bool \<Rightarrow> outcome" where
  "kolmogorov_smirnov times' time_range dist' mean_wait t_step verbose =
     (let duration = snd time_range - fst time_range;
          warning = (if mean_wait = None \<and> verbose \<and> dist' = ''expon''
                     then [Text ''WARNING: Using inferred mean wait''] else [])
      in if mean_wait = None \<and> times' = [] then (warning, Inl ZeroDivisionError)
         else
           let mean_wait' = (case mean_wait of
                               None \<Rightarrow> duration / real (length times')
                             | Some w \<Rightarrow> w)
           in if dist' \<noteq> ''expon'' \<and> dist' \<noteq> ''uniform''
              then (warning, Inl UnboundLocalError)
              else
                let normalized =
                      (if dist' = ''expon''
                       then map (\<lambda>d. fdiv d mean_wait') (np_diff times')
                       else map (\<lambda>t. fdiv (t - fst time_range) duration) times')
                in case kstest normalized dist' of
                     Inl e \<Rightarrow> (warning, Inl e)
                   | Inr (statistic, pvalue) \<Rightarrow>
                       (warning @
                        (if verbose
                         then [Format ''mean wait, statistic, p-value: %g, %g, %.2g''
                                 [Float (Fin mean_wait'), statistic, pvalue]]
                         else []),
                        Inr pvalue))"

subsection \<open>scipy: the statistic of \<^verbatim>\<open>kstest\<close>\<close>

text \<open>
  \<^verbatim>\<open>scipy.stats.kstest(rvs, cdf)\<close> is the library's. For a sample and the name of a
  distribution its two-sided statistic is
  \<^verbatim>\<open>
      vals = np.sort(rvs)
      N = len(vals)
      cdfvals = cdf(vals)
      Dplus = (np.arange(1.0, N + 1)/N - cdfvals).max()
      Dmin = (cdfvals - np.arange(0.0, N)/N).max()
      D = np.max([Dplus, Dmin])
  \<close>
  with \<open>cdf\<close> the distribution function of the standard uniform or exponential
  distribution. \<open>kstest_statistic rvs cdf\<close> is the number that the term
  \<open>Kstest_statistic rvs cdf\<close> stands for, where the sample is finite and not empty and
  the reference is one of the two that the module uses.
\<close>

definition uniform_cdf :: "real \<Rightarrow> real" where
  "uniform_cdf x = (if x < 0 then 0 else if 1 < x then 1 else x)"

definition expon_cdf :: "real \<Rightarrow> real" where
  "expon_cdf x = (if x < 0 then 0 else 1 - exp (- x))"

text \<open>\<^verbatim>\<open>ndarray.max()\<close>; it raises on an empty array, which \<open>kstest\<close> above accounts
  for, so that the first equation is never reached from \<open>kstest_statistic\<close>.\<close>

fun maximum :: "real list \<Rightarrow> real" where
  "maximum [] = 0"
| "maximum [x] = x"
| "maximum (x # xs) = max x (maximum xs)"

definition ks_distance :: "(real \<Rightarrow> real) \<Rightarrow> real list \<Rightarrow> real" where
  "ks_distance cdf rvs =
     (let vals = sort rvs;
          N = length vals;
          Dplus = maximum (map (\<lambda>i. real (i + 1) / real N - cdf (vals ! i)) [0 ..< N]);
          Dmin = maximum (map (\<lambda>i. cdf (vals ! i) - real i / real N) [0 ..< N])
      in max Dplus Dmin)"

fun finite_values :: "pyfloat list \<Rightarrow> real list option" where
  "finite_values [] = Some []"
| "finite_values (Fin x # xs) = map_option (Cons x) (finite_values xs)"
| "finite_values (_ # xs) = None"

definition kstest_statistic :: "pyfloat list \<Rightarrow> string \<Rightarrow> real option" where
  "kstest_statistic rvs cdf =
     (case finite_values rvs of
        None \<Rightarrow> None
      | Some xs \<Rightarrow>
          if xs = [] then None
          else if cdf = ''uniform'' then Some (ks_distance uniform_cdf xs)
          else if cdf = ''expon'' then Some (ks_distance expon_cdf xs)
          else None)"

subsection \<open>The Combiner: \<^verbatim>\<open>combine_pvalues\<close> (line 134)\<close>

text \<open>
  \<^verbatim>\<open>
  def combine_pvalues(p_values_tuple, method='fisher'):
      p_values = [stats.combine_pvalues(row, method=method)[1]
                  for row in np.vstack(p_values_tuple).T]
      return p_values
  \<close>
  An element of \<open>p_values_tuple\<close> is a number or a one-dimensional array; \<^verbatim>\<open>np.vstack\<close>
  makes each of them one row (a number is a row of length one) and needs at least one
  row and rows of one length. \<open>.T\<close> turns the columns of that matrix into the rows the
  comprehension walks through.

  \<^verbatim>\<open>scipy.stats.combine_pvalues\<close> is the library's:
  \<^verbatim>\<open>
      if method == 'fisher':
          Xsq = -2 * np.sum(np.log(pvalues))
          pval = distributions.chi2.sf(Xsq, 2 * len(pvalues))
          return (Xsq, pval)
      elif method == 'stouffer': ...
      else:
          raise ValueError(...)
  \<close>
\<close>

datatype array_like = Scalar real | Array "real list"

fun atleast_2d :: "array_like \<Rightarrow> real list" where
  "atleast_2d (Scalar x) = [x]"
| "atleast_2d (Array xs) = xs"

definition vstack :: "array_like list \<Rightarrow> error + real list list" where
  "vstack tup =
     (let rows = map atleast_2d tup
      in if rows = [] then Inl ValueError
         else if list_ex (\<lambda>r. length r \<noteq> length (hd rows)) rows then Inl ValueError
         else Inr rows)"

definition T :: "real list list \<Rightarrow> real list list" where
  "T rows = map (\<lambda>j. map (\<lambda>r. r ! j) rows) [0 ..< length (hd rows)]"

definition scipy_combine_pvalues :: "real list \<Rightarrow> string \<Rightarrow> error + (pyval \<times> pyval)" where
  "scipy_combine_pvalues pvalues method =
     (if method = ''fisher'' then
        let Xsq = fscale (- 2) (fsum (map flog pvalues))
        in Inr (Float Xsq, Chi2_sf Xsq (2 * int (length pvalues)))
      else if method = ''stouffer'' then
        Inr (Stouffer_statistic pvalues, Stouffer_pvalue pvalues)
      else Inl ValueError)"

text \<open>The comprehension: the first exception ends it.\<close>

fun comprehension :: "('a \<Rightarrow> error + 'b) \<Rightarrow> 'a list \<Rightarrow> error + 'b list" where
  "comprehension f [] = Inr []"
| "comprehension f (x # xs) =
     (case f x of
        Inl e \<Rightarrow> Inl e
      | Inr y \<Rightarrow> (case comprehension f xs of Inl e \<Rightarrow> Inl e | Inr ys \<Rightarrow> Inr (y # ys)))"

definition combine_pvalues :: "array_like list \<Rightarrow> string \<Rightarrow> error + pyval list" where
  "combine_pvalues p_values_tuple method =
     (case vstack p_values_tuple of
        Inl e \<Rightarrow> Inl e
      | Inr rows \<Rightarrow>
          comprehension
            (\<lambda>row. case scipy_combine_pvalues row method of
                      Inl e \<Rightarrow> Inl e
                    | Inr (statistic, pval) \<Rightarrow> Inr pval)
            (T rows))"

subsection \<open>Sample mean and sample variance of a Count Series\<close>

text \<open>The two quantities in which the specification states the dispersion statistic:
  the mean count and the unbiased sample variance.\<close>

definition sample_mean :: "nat list \<Rightarrow> real" where
  "sample_mean counts = (\<Sum>c\<leftarrow>counts. real c) / real (length counts)"

definition sample_variance :: "nat list \<Rightarrow> real" where
  "sample_variance counts =
     (\<Sum>c\<leftarrow>counts. (real c - sample_mean counts)\<^sup>2) / real (length counts - 1)"

subsection \<open>Sample mean gap of a catalog\<close>

text \<open>The mean of the differences between consecutive timestamps.\<close>

definition sample_mean_gap :: "real list \<Rightarrow> real" where
  "sample_mean_gap times' = sum_list (np_diff times') / real (length (np_diff times'))"

subsection \<open>Empirical distribution function\<close>

text \<open>The fraction of the sample that is at most \<open>x\<close>.\<close>

definition ecdf :: "real list \<Rightarrow> real \<Rightarrow> real" where
  "ecdf xs x = real (length (filter (\<lambda>v. v \<le> x) xs)) / real (length xs)"

section \<open>Properties\<close>

subsection \<open>The Binner\<close>

lemmas eval_upt = upt_rec [of _ "numeral _"] upt_rec [of _ "Suc _"]

lemma increasing_sorted: "increasing xs = sorted xs"
  by (induction xs rule: increasing.induct) force+

lemma increasing_arange:
  "0 < step \<Longrightarrow> increasing (map (\<lambda>i. start + real i * step) [0 ..< n])"
  unfolding increasing_sorted
  by (simp add: sorted_map sorted_wrt_iff_nth_less)

lemma length_bin_counts: "length (bin_counts a edges) = length edges - 1"
  by (induction a edges rule: bin_counts.induct) simp_all

lemma bin_counts_Nil: "bin_counts [] edges = replicate (length edges - 1) 0"
  by (induction "[] :: real list" edges rule: bin_counts.induct) (simp_all add: count_in_def)

lemma count_in_split:
  "lo \<le> hi \<Longrightarrow> hi \<le> up \<Longrightarrow>
   length (filter (\<lambda>t. lo \<le> t \<and> t < hi) a) + count_in hi up a = count_in lo up a"
  unfolding count_in_def by (induction a) auto

lemma sum_bin_counts:
  "sorted edges \<Longrightarrow> 2 \<le> length edges \<Longrightarrow>
   sum_list (bin_counts a edges) = count_in (hd edges) (last edges) a"
proof (induction a edges rule: bin_counts.induct)
  case (1 a lo hi)
  then show ?case by simp
next
  case (2 a lo hi v va)
  from "2.prems" have s: "sorted (hi # v # va)" and l: "lo \<le> hi" by auto
  have h: "hi \<le> last (hi # v # va)" using s
    by (metis last_in_set list.discI order_refl set_ConsD sorted_simps(2))
  have "sum_list (bin_counts a (hi # v # va)) = count_in hi (last (hi # v # va)) a"
    using "2.IH" s by simp
  then show ?case using count_in_split [OF l h, of a] by simp
qed simp_all


lemma arange_edges:
  assumes "t_start < t_end" "0 < t_step"
  shows "arange t_start (t_end + 0.5 * t_step) t_step =
           Inr (map (\<lambda>i. t_start + real i * t_step)
                  [0 ..< nat \<lceil>(t_end - t_start) / t_step + 1 / 2\<rceil>])"
proof -
  have "(t_end + 0.5 * t_step - t_start) / t_step = (t_end - t_start) / t_step + 1 / 2"
    using assms by (simp add: field_simps)
  then show ?thesis using assms by (simp add: arange_def)
qed

lemma nedges_pos:
  fixes t_start t_end t_step :: real
  assumes "t_start < t_end" "0 < t_step"
  shows "Suc 0 \<le> nat \<lceil>(t_end - t_start) / t_step + 1 / 2\<rceil>"
proof -
  define c where "c = \<lceil>(t_end - t_start) / t_step + 1 / 2\<rceil>"
  have "0 < (t_end - t_start) / t_step" using assms by simp
  then have "0 < (t_end - t_start) / t_step + 1 / 2" by simp
  then have "0 < c" unfolding c_def by (simp only: zero_less_ceiling)
  then have "Suc 0 \<le> nat c" by simp
  then show ?thesis unfolding c_def .
qed

lemma count_events_eq:
  assumes "t_start < t_end" "0 < t_step"
    and n: "n = nat \<lceil>(t_end - t_start) / t_step + 1 / 2\<rceil>"
  shows "count_events times' (t_start, t_end) t_step =
           Inr (bin_counts times' (map (\<lambda>i. t_start + real i * t_step) [0 ..< n]),
                map (\<lambda>i. t_start + real i * t_step) [0 ..< n])"
proof -
  have "Suc 0 \<le> n" unfolding n using nedges_pos assms(1,2) by simp
  then have "[0 ..< n] \<noteq> []" by simp
  then show ?thesis
    unfolding count_events_def fst_conv snd_conv arange_edges [OF assms(1,2)] n [symmetric]
    using assms(2) by (simp add: histogram_def increasing_arange)
qed

subsection \<open>Rounding to binary64\<close>

text \<open>Rounding is monotone, keeps the sign, is idempotent, and loses at most the
  fraction \<open>2^-53\<close> of a number that is not negative.\<close>

lemma rne_of_int [simp]: "rne (of_int n) = n"
  by (simp add: rne_def)

lemma rne_numeral [simp]: "rne (numeral n) = numeral n"
  using rne_of_int [of "numeral n"] by simp

lemma rne_lower: "y - 1 / 2 \<le> of_int (rne y)"
  unfolding rne_def Let_def by (auto; linarith)

lemma rne_upper: "of_int (rne y) \<le> y + 1 / 2"
  unfolding rne_def Let_def by (auto; linarith)

lemma rne_mono: "x \<le> y \<Longrightarrow> rne x \<le> rne y"
proof -
  assume xy: "x \<le> y"
  have fl: "\<lfloor>x\<rfloor> \<le> \<lfloor>y\<rfloor>" using xy by (rule floor_mono)
  show ?thesis
  proof (cases "\<lfloor>x\<rfloor> = \<lfloor>y\<rfloor>")
    case True
    then show ?thesis using xy unfolding rne_def Let_def by auto
  next
    case False
    then have "\<lfloor>x\<rfloor> + 1 \<le> \<lfloor>y\<rfloor>" using fl by simp
    moreover have "rne x \<le> \<lfloor>x\<rfloor> + 1" unfolding rne_def Let_def by auto
    moreover have "\<lfloor>y\<rfloor> \<le> rne y" unfolding rne_def Let_def by auto
    ultimately show ?thesis by linarith
  qed
qed

lemma rne_minus: "rne (- y) = - rne y"
proof (cases "y = of_int \<lfloor>y\<rfloor>")
  case True
  then obtain n where "y = of_int n" by metis
  then show ?thesis by (simp flip: of_int_minus)
next
  case False
  then have c: "\<lfloor>- y\<rfloor> = - \<lfloor>y\<rfloor> - 1"
    by (simp add: floor_minus ceiling_altdef)
  show ?thesis unfolding rne_def Let_def c by (auto; linarith?)
qed

lemma floor_log2_bounds:
  assumes "0 < x"
  shows "2 powr (of_int \<lfloor>log 2 x\<rfloor>) \<le> x" and "x < 2 powr (of_int \<lfloor>log 2 x\<rfloor> + 1)"
  using floor_log_eq_powr_iff [of x 2 "\<lfloor>log 2 x\<rfloor>"] assms by simp_all

lemma ulp_scale:
  fixes e :: int
  shows "2 ^ 52 * 2 powr (of_int e - 52) = (2::real) powr (of_int e)"
    and "2 ^ 53 * 2 powr (of_int e - 52) = (2::real) powr (of_int e + 1)"
proof -
  have a: "(2::real) powr (of_int e - 52) = 2 powr (of_int e) / 2 ^ 52"
    by (simp add: powr_diff)
  show "2 ^ 52 * 2 powr (of_int e - 52) = (2::real) powr (of_int e)" by (simp add: a)
  have "(2::real) powr (of_int e + 1) = 2 powr (of_int e) * 2" by (simp add: powr_add)
  then show "2 ^ 53 * 2 powr (of_int e - 52) = (2::real) powr (of_int e + 1)" by (simp add: a)
qed

lemma float64_pos:
  assumes "0 < x"
  defines "e \<equiv> \<lfloor>log 2 x\<rfloor>"
  defines "u \<equiv> 2 powr (of_int e - 52)"
  shows "float64 x = of_int (rne (x / u)) * u"
    and "2 ^ 52 \<le> x / u" and "x / u < 2 ^ 53"
    and "2 ^ 52 \<le> rne (x / u)" and "rne (x / u) \<le> 2 ^ 53"
    and "2 powr (of_int e) \<le> float64 x" and "float64 x \<le> 2 powr (of_int e + 1)"
proof -
  have u: "0 < u" by (simp add: u_def)
  show f: "float64 x = of_int (rne (x / u)) * u"
    using assms(1) by (simp add: float64_def Let_def u_def e_def)
  have "2 powr (of_int e) \<le> x" and "x < 2 powr (of_int e + 1)"
    unfolding e_def using floor_log2_bounds [OF assms(1)] by simp_all
  then have "2 ^ 52 * u \<le> x" and "x < 2 ^ 53 * u"
    unfolding u_def by (simp_all only: ulp_scale)
  then show lo: "2 ^ 52 \<le> x / u" and hi: "x / u < 2 ^ 53"
    using u by (simp_all add: field_simps)
  have "rne (2 ^ 52) \<le> rne (x / u)" using lo by (rule rne_mono)
  moreover have "rne (2 ^ 52) = 2 ^ 52" using rne_of_int [of "2 ^ 52"] by simp
  ultimately show rlo: "2 ^ 52 \<le> rne (x / u)" by simp
  have "rne (x / u) \<le> rne (2 ^ 53)" using hi by (intro rne_mono) simp
  moreover have "rne (2 ^ 53) = 2 ^ 53" using rne_of_int [of "2 ^ 53"] by simp
  ultimately show rhi: "rne (x / u) \<le> 2 ^ 53" by simp
  have "2 ^ 52 * u \<le> of_int (rne (x / u)) * u"
    using rlo u by (intro mult_right_mono) (simp_all add: of_int_le_iff [symmetric] del: of_int_le_iff)
  then show "2 powr (of_int e) \<le> float64 x" unfolding f u_def by (simp only: ulp_scale)
  have "of_int (rne (x / u)) * u \<le> 2 ^ 53 * u"
    using rhi u by (intro mult_right_mono) (simp_all add: of_int_le_iff [symmetric] del: of_int_le_iff)
  then show "float64 x \<le> 2 powr (of_int e + 1)" unfolding f u_def by (simp only: ulp_scale)
qed

lemma float64_zero [simp]: "float64 0 = 0"
  by (simp add: float64_def)

lemma float64_minus: "float64 (- x) = - float64 x"
  by (simp add: float64_def Let_def rne_minus)

lemma float64_gt_zero: "0 < x \<Longrightarrow> 0 < float64 x"
  using float64_pos(6) [of x] by (smt (verit) powr_gt_zero)

lemma float64_mono_pos:
  assumes "0 < x" and "x \<le> y"
  shows "float64 x \<le> float64 y"
proof -
  have y: "0 < y" using assms by simp
  have le: "\<lfloor>log 2 x\<rfloor> \<le> \<lfloor>log 2 y\<rfloor>"
    using assms y by (intro floor_mono) simp
  show ?thesis
  proof (cases "\<lfloor>log 2 x\<rfloor> = \<lfloor>log 2 y\<rfloor>")
    case True
    define u where "u = (2::real) powr (of_int \<lfloor>log 2 y\<rfloor> - 52)"
    have u: "0 < u" by (simp add: u_def)
    have "x / u \<le> y / u" using assms(2) u by (simp add: divide_right_mono)
    then have "rne (x / u) \<le> rne (y / u)" by (rule rne_mono)
    then have "of_int (rne (x / u)) * u \<le> of_int (rne (y / u)) * u"
      using u by (intro mult_right_mono) simp_all
    then show ?thesis
      using float64_pos(1) [OF assms(1)] float64_pos(1) [OF y] True by (simp add: u_def)
  next
    case False
    then have "\<lfloor>log 2 x\<rfloor> + 1 \<le> \<lfloor>log 2 y\<rfloor>" using le by simp
    then have "(2::real) powr (of_int \<lfloor>log 2 x\<rfloor> + 1) \<le> 2 powr (of_int \<lfloor>log 2 y\<rfloor>)"
      by (simp add: of_int_le_iff [symmetric] del: of_int_le_iff)
    then show ?thesis
      using float64_pos(7) [OF assms(1)] float64_pos(6) [OF y] by linarith
  qed
qed

lemma float64_mono: "x \<le> y \<Longrightarrow> float64 x \<le> float64 y"
proof -
  assume xy: "x \<le> y"
  consider "0 < x" | "x \<le> 0" "0 \<le> y" | "y < 0" using xy by linarith
  then show ?thesis
  proof cases
    case 1
    then show ?thesis using xy by (rule float64_mono_pos)
  next
    case 2
    have "float64 x \<le> 0"
    proof (cases "x = 0")
      case False
      then have "0 < float64 (- x)" using 2 by (intro float64_gt_zero) simp
      then show ?thesis by (simp add: float64_minus)
    qed simp
    moreover have "0 \<le> float64 y"
    proof (cases "y = 0")
      case False
      then have "0 < float64 y" using 2 by (intro float64_gt_zero) simp
      then show ?thesis by simp
    qed simp
    ultimately show ?thesis by simp
  next
    case 3
    then have "float64 (- y) \<le> float64 (- x)" using xy by (intro float64_mono_pos) simp_all
    then show ?thesis by (simp add: float64_minus)
  qed
qed

lemma float64_nonneg: "0 \<le> x \<Longrightarrow> 0 \<le> float64 x"
  using float64_mono [of 0 x] by simp

lemma float64_rel:
  assumes "0 \<le> x"
  shows "x * (1 - 1 / 2 ^ 53) \<le> float64 x"
proof (cases "x = 0")
  case False
  then have x: "0 < x" using assms by simp
  define u where "u = (2::real) powr (of_int \<lfloor>log 2 x\<rfloor> - 52)"
  have u: "0 < u" by (simp add: u_def)
  have f: "float64 x = of_int (rne (x / u)) * u"
    and lo: "2 ^ 52 \<le> x / u"
    using float64_pos(1,2) [OF x] by (simp_all add: u_def)
  have "u * 2 ^ 52 \<le> x" using lo u by (simp add: field_simps)
  then have "u / 2 \<le> x / 2 ^ 53" by (simp add: field_simps)
  have h: "u / 2 \<le> x / 2 ^ 53" by fact
  have "(x / u - 1 / 2) * u \<le> of_int (rne (x / u)) * u"
    using rne_lower [of "x / u"] u by (intro mult_right_mono) simp_all
  moreover have "(x / u - 1 / 2) * u = x - u / 2" using u by (simp add: field_simps)
  ultimately have "x - u / 2 \<le> float64 x" by (simp add: f)
  then show ?thesis using h by (simp add: algebra_simps)
qed simp

lemma float64_idem: "float64 (float64 x) = float64 x"
proof -
  have pos: "float64 (float64 x) = float64 x" if x: "0 < x" for x
  proof -
    define e where "e = \<lfloor>log 2 x\<rfloor>"
    define u where "u = (2::real) powr (of_int e - 52)"
    define m where "m = rne (x / u)"
    have u: "0 < u" by (simp add: u_def)
    have f: "float64 x = of_int m * u"
      and mlo: "2 ^ 52 \<le> m" and mhi: "m \<le> 2 ^ 53"
      using float64_pos(1,4,5) [OF x] by (simp_all add: u_def e_def m_def)
    have fpos: "0 < float64 x" using x by (rule float64_gt_zero)
    show ?thesis
    proof (cases "m = 2 ^ 53")
      case True
      then have fe: "float64 x = 2 powr (of_int (e + 1))"
        using f ulp_scale(2) [of e] by (simp add: u_def)
      then have "\<lfloor>log 2 (float64 x)\<rfloor> = e + 1" by simp
      then have "float64 (float64 x) =
          of_int (rne (float64 x / 2 powr (of_int (e + 1) - 52))) * 2 powr (of_int (e + 1) - 52)"
        using float64_pos(1) [OF fpos] by simp
      moreover have "float64 x / 2 powr (of_int (e + 1) - 52) = of_int (2 ^ 52)"
        using ulp_scale(1) [of "e + 1"] by (simp add: fe field_simps)
      ultimately show ?thesis
        using ulp_scale(1) [of "e + 1"] unfolding rne_of_int by (simp add: fe)
    next
      case False
      then have "m < 2 ^ 53" using mhi by simp
      then have "of_int m * u < 2 ^ 53 * u"
        using u by (intro mult_strict_right_mono) (simp_all add: of_int_less_iff [symmetric] del: of_int_less_iff)
      moreover have "2 ^ 52 * u \<le> of_int m * u"
        using mlo u by (intro mult_right_mono) (simp_all add: of_int_le_iff [symmetric] del: of_int_le_iff)
      ultimately have "2 powr (of_int e) \<le> float64 x" "float64 x < 2 powr (of_int e + 1)"
        unfolding f u_def by (simp_all only: ulp_scale)
      then have "\<lfloor>log 2 (float64 x)\<rfloor> = e"
        using floor_log_eq_powr_iff [of "float64 x" 2 e] fpos by simp
      then have "float64 (float64 x) = of_int (rne (float64 x / u)) * u"
        using float64_pos(1) [OF fpos] by (simp add: u_def)
      moreover have "float64 x / u = of_int m" using u by (simp add: f)
      ultimately show ?thesis unfolding rne_of_int by (simp add: f)
    qed
  qed
  consider "0 < x" | "x = 0" | "x < 0" by linarith
  then show ?thesis
  proof cases
    case 3
    then have "float64 (float64 (- x)) = float64 (- x)" by (intro pos) simp
    then show ?thesis by (simp add: float64_minus)
  qed (simp_all add: pos)
qed

lemma float64_eval_powr:
  assumes "2 powr (of_int e) \<le> \<bar>x\<bar>" and "\<bar>x\<bar> < 2 powr (of_int e + 1)"
  shows "float64 x = of_int (rne (x / 2 powr (of_int e - 52))) * 2 powr (of_int e - 52)"
proof -
  have "0 < \<bar>x\<bar>" using assms(1) by (smt (verit) powr_gt_zero)
  then have "\<lfloor>log 2 \<bar>x\<bar>\<rfloor> = e"
    using floor_log_eq_powr_iff [of "\<bar>x\<bar>" 2 e] assms by simp
  then show ?thesis using \<open>0 < \<bar>x\<bar>\<close> by (simp add: float64_def Let_def)
qed

lemma float64_eval:
  fixes a b :: nat
  assumes "2 ^ 52 * 2 ^ a / 2 ^ b \<le> \<bar>x\<bar>" and "\<bar>x\<bar> < 2 ^ 53 * 2 ^ a / 2 ^ b"
  shows "float64 x = of_int (rne (x * 2 ^ b / 2 ^ a)) * 2 ^ a / 2 ^ b"
proof -
  define e :: int where "e = int a - int b + 52"
  have u: "(2::real) powr (of_int e - 52) = 2 ^ a / 2 ^ b"
    by (simp add: e_def powr_diff powr_realpow)
  have "2 ^ 52 * 2 powr (of_int e - 52) \<le> \<bar>x\<bar>" and "\<bar>x\<bar> < 2 ^ 53 * 2 powr (of_int e - 52)"
    using assms by (simp_all add: u)
  then have "2 powr (of_int e) \<le> \<bar>x\<bar>" and "\<bar>x\<bar> < 2 powr (of_int e + 1)"
    by (simp_all only: ulp_scale)
  then have "float64 x = of_int (rne (x / 2 powr (of_int e - 52))) * 2 powr (of_int e - 52)"
    by (rule float64_eval_powr)
  then show ?thesis by (simp add: u)
qed

lemma rne_eval:
  "rne y = (if y - of_int \<lfloor>y\<rfloor> < 1 / 2 then \<lfloor>y\<rfloor>
            else if 1 / 2 < y - of_int \<lfloor>y\<rfloor> then \<lfloor>y\<rfloor> + 1
            else if even \<lfloor>y\<rfloor> then \<lfloor>y\<rfloor> else \<lfloor>y\<rfloor> + 1)"
  by (simp add: rne_def Let_def)

subsection \<open>The Binner in double precision\<close>

lemma edge_f64_Suc:
  assumes "is_double start" and "0 < step"
  shows "edge_f64 start step i \<le> edge_f64 start step (Suc i)"
proof -
  define next' where "next' = float64 (start + step)"
  define a where "a = next' - start"
  define delta where "delta = float64 a"
  have s: "float64 start = start" using assms(1) by (simp add: is_double_def)
  have n: "start \<le> next'"
    unfolding next'_def using float64_mono [of start "start + step"] assms(2) s by simp
  then have a: "0 \<le> a" by (simp add: a_def)
  then have d: "0 \<le> delta" unfolding delta_def by (rule float64_nonneg)
  consider "i = 0" | "i = 1" | "2 \<le> i" by linarith
  then show ?thesis
  proof cases
    case 1
    then show ?thesis using n by (simp add: edge_f64_def next'_def)
  next
    case 2
    have "a * (1 - 1 / 2 ^ 53) \<le> delta" unfolding delta_def using a by (rule float64_rel)
    then have "2 * a * (1 - 1 / 2 ^ 53) * (1 - 1 / 2 ^ 53) \<le> 2 * delta * (1 - 1 / 2 ^ 53)"
      by simp
    also have "\<dots> \<le> float64 (2 * delta)" using float64_rel [of "2 * delta"] d by simp
    finally have "2 * a * ((1 - 1 / 2 ^ 53) * (1 - 1 / 2 ^ 53)) \<le> float64 (2 * delta)"
      by (simp add: mult.assoc)
    moreover have "a * 1 \<le> a * (2 * ((1 - 1 / 2 ^ 53) * (1 - 1 / 2 ^ 53)))"
      using a by (intro mult_left_mono) simp_all
    ultimately have "a \<le> float64 (2 * delta)" by simp
    then have "next' \<le> start + float64 (2 * delta)" by (simp add: a_def)
    then have "float64 next' \<le> float64 (start + float64 (2 * delta))" by (rule float64_mono)
    moreover have "float64 next' = next'" unfolding next'_def by (rule float64_idem)
    ultimately show ?thesis
      using 2 by (simp add: edge_f64_def Let_def next'_def delta_def a_def)
  next
    case 3
    have "real i * delta \<le> real (Suc i) * delta" using d by (intro mult_right_mono) simp_all
    then have "float64 (real i * delta) \<le> float64 (real (Suc i) * delta)" by (rule float64_mono)
    then have "float64 (start + float64 (real i * delta))
        \<le> float64 (start + float64 (real (Suc i) * delta))"
      by (intro float64_mono) simp
    then show ?thesis
      using 3 by (simp add: edge_f64_def Let_def next'_def delta_def a_def)
  qed
qed

lemma edge_f64_mono:
  assumes "is_double start" and "0 < step" and "i \<le> j"
  shows "edge_f64 start step i \<le> edge_f64 start step j"
  by (rule lift_Suc_mono_le [of "edge_f64 start step", OF edge_f64_Suc [OF assms(1,2)] assms(3)])

lemma increasing_edges_f64:
  assumes "is_double start" and "0 < step"
  shows "increasing (map (edge_f64 start step) [0 ..< n])"
  unfolding increasing_sorted
  using edge_f64_mono [OF assms] by (simp add: sorted_map sorted_wrt_iff_nth_less)

lemma nedges_f64_pos:
  assumes "is_double t_start" and "is_double t_end" and "t_start < t_end" and "0 < t_step"
  shows "Suc 0 \<le> nat \<lceil>float64 (float64 (float64 (t_end + float64 (0.5 * t_step)) - t_start)
                           / t_step)\<rceil>"
proof -
  define stop where "stop = float64 (t_end + float64 (0.5 * t_step))"
  define c where "c = \<lceil>float64 (float64 (stop - t_start) / t_step)\<rceil>"
  have "0 \<le> float64 (0.5 * t_step)" using assms(4) by (intro float64_nonneg) simp
  then have "float64 t_end \<le> stop" unfolding stop_def by (intro float64_mono) simp
  then have "t_start < stop" using assms(2,3) by (simp add: is_double_def)
  then have "0 < float64 (stop - t_start)" by (intro float64_gt_zero) simp
  then have "0 < float64 (stop - t_start) / t_step" using assms(4) by simp
  then have "0 < float64 (float64 (stop - t_start) / t_step)" by (rule float64_gt_zero)
  then have "0 < c" unfolding c_def by (simp only: zero_less_ceiling)
  then have "Suc 0 \<le> nat c" by simp
  then show ?thesis unfolding c_def stop_def .
qed

lemma count_events_f64_eq:
  assumes "is_double t_start" and "is_double t_end" and "t_start < t_end" and "0 < t_step"
    and n: "n = nat \<lceil>float64 (float64 (float64 (t_end + float64 (0.5 * t_step)) - t_start)
                           / t_step)\<rceil>"
  shows "count_events_f64 times' (t_start, t_end) t_step =
           Inr (bin_counts times' (map (edge_f64 t_start t_step) [0 ..< n]),
                map (edge_f64 t_start t_step) [0 ..< n])"
    and "Suc 0 \<le> n"
proof -
  show n1: "Suc 0 \<le> n" unfolding n using nedges_f64_pos [OF assms(1-4)] .
  then have "[0 ..< n] \<noteq> []" by simp
  then show "count_events_f64 times' (t_start, t_end) t_step =
           Inr (bin_counts times' (map (edge_f64 t_start t_step) [0 ..< n]),
                map (edge_f64 t_start t_step) [0 ..< n])"
    unfolding count_events_f64_def arange_f64_def fst_conv snd_conv n [symmetric]
    using assms(4) increasing_edges_f64 [OF assms(1,4)] by (simp add: histogram_def)
qed

lemma count_events_f64_total:
  assumes "is_double t_start" and "0 < t_step" and "2 \<le> n"
  shows "sum_list (bin_counts times' (map (edge_f64 t_start t_step) [0 ..< n])) =
           count_in t_start (edge_f64 t_start t_step (n - 1)) times'"
proof -
  let ?edges = "map (edge_f64 t_start t_step) [0 ..< n]"
  have srt: "sorted ?edges"
    using increasing_edges_f64 [OF assms(1,2), of n] by (simp only: increasing_sorted)
  have "hd ?edges = t_start"
    using assms(3) by (simp add: hd_map upt_conv_Cons edge_f64_def del: upt_Suc)
  moreover have "last ?edges = edge_f64 t_start t_step (n - 1)"
    using assms(3) by (simp add: last_map)
  moreover have "2 \<le> length ?edges" using assms(3) by simp
  ultimately show ?thesis using sum_bin_counts [OF srt, of times'] by simp
qed

lemma edge_f64_ge2:
  "2 \<le> i \<Longrightarrow>
   edge_f64 start step i =
     float64 (start + float64 (real i * float64 (float64 (start + step) - start)))"
  by (simp add: edge_f64_def Let_def)

lemma f64_values:
  "float64 (1 / 2) = 1 / 2" "float64 1 = 1" "float64 2 = 2"  "float64 3 = 3"
  "float64 (5 / 2) = 5 / 2" "float64 (9 / 4) = 9 / 4" "float64 (11 / 4) = 11 / 4"
  "float64 (13 / 4) = 13 / 4"
  using float64_eval [of 0 53 "1 / 2"] float64_eval [of 0 52 1] float64_eval [of 0 51 2]
    float64_eval [of 0 51 3] float64_eval [of 0 51 "5 / 2"] float64_eval [of 0 51 "9 / 4"]
    float64_eval [of 0 51 "11 / 4"] float64_eval [of 0 51 "13 / 4"]
  by (simp_all add: rne_eval)

lemma f64_more: "float64 (7 / 2) = 7 / 2"
  using float64_eval [of 0 51 "7 / 2"] by (simp add: rne_eval)

text \<open>Two windows in decimal notation, with the bin width \<open>0.1\<close>, that is the double
  \<open>3602879701896397 / 2^55\<close>. In the window \<open>(1900, 2000)\<close> there are 1001 edges and the
  last one is \<open>1900 + 1000 * delta = 1999.999999999909...\<close>, so that an event at 2000 is
  not counted. In the window \<open>(1, 1.25)\<close> the stop value rounds to the double \<open>1.3\<close> and
  the quotient to \<open>3.0000000000000004\<close>: there are 4 edges and 3 bins, where the
  quotient without rounding gives 3 edges and 2 bins.\<close>

lemma f64_example_1900:
  "float64 1900 = 1900" "float64 2000 = 2000"
  "float64 (5 / 10 * (3602879701896397 / 2 ^ 55)) = 3602879701896397 / 2 ^ 56"
  "float64 (2000 + 3602879701896397 / 2 ^ 56) = 8796312924533555 / 2 ^ 42"
  "float64 (8796312924533555 / 2 ^ 42 - 1900) = 440024553435955 / 2 ^ 42"
  "float64 (440024553435955 / 2 ^ 42 / (3602879701896397 / 2 ^ 55)) = 8800491068719100 / 2 ^ 43"
  "float64 (1900 + 3602879701896397 / 2 ^ 55) = 8356728175748710 / 2 ^ 42"
  "float64 (8356728175748710 / 2 ^ 42 - 1900) = 439804651110 / 2 ^ 42"
  "float64 (1000 * (439804651110 / 2 ^ 42)) = 439804651110000 / 2 ^ 42"
  "float64 (1900 + 439804651110000 / 2 ^ 42) = 8796093022207600 / 2 ^ 42"
  using float64_eval [of 0 42 1900] float64_eval [of 0 42 2000]
    float64_eval [of 0 57 "5 / 10 * (3602879701896397 / 2 ^ 55)"]
    float64_eval [of 0 42 "2000 + 3602879701896397 / 2 ^ 56"]
    float64_eval [of 0 46 "8796312924533555 / 2 ^ 42 - 1900"]
    float64_eval [of 0 43 "440024553435955 / 2 ^ 42 / (3602879701896397 / 2 ^ 55)"]
    float64_eval [of 0 42 "1900 + 3602879701896397 / 2 ^ 55"]
    float64_eval [of 0 56 "8356728175748710 / 2 ^ 42 - 1900"]
    float64_eval [of 0 46 "1000 * (439804651110 / 2 ^ 42)"]
    float64_eval [of 0 42 "1900 + 439804651110000 / 2 ^ 42"]
  by (simp_all add: rne_eval)

lemma count_events_f64_decimal:
  "map_sum id (sum_list \<circ> fst)
     (count_events_f64 [2000] (1900, 2000) (3602879701896397 / 2 ^ 55)) = Inr 0"
proof -
  let ?d = "3602879701896397 / 2 ^ 55 :: real"
  have d1: "is_double 1900" and d2: "is_double 2000"
    by (simp_all add: is_double_def f64_example_1900)
  have n: "1001 = nat \<lceil>float64 (float64 (float64 (2000 + float64 (0.5 * ?d)) - 1900) / ?d)\<rceil>"
    unfolding f64_example_1900 by simp
  have "edge_f64 1900 ?d 1000 =
          float64 (1900 + float64 (real 1000 * float64 (float64 (1900 + ?d) - 1900)))"
    by (rule edge_f64_ge2) simp
  also have "\<dots> = 8796093022207600 / 2 ^ 42"
    unfolding of_nat_numeral f64_example_1900 by (rule refl)
  finally have last: "edge_f64 1900 ?d (1001 - 1) = 8796093022207600 / 2 ^ 42" by simp
  have "sum_list (bin_counts [2000] (map (edge_f64 1900 ?d) [0 ..< 1001])) =
          count_in 1900 (edge_f64 1900 ?d (1001 - 1)) [2000]"
    by (rule count_events_f64_total [OF d1]) simp_all
  also have "\<dots> = 0" unfolding last by (simp add: count_in_def)
  finally show ?thesis
    using count_events_f64_eq(1) [OF d1 d2 _ _ n, of "[2000]"] by simp
qed

lemma f64_example_halfway:
  "float64 1 = 1" "float64 (5 / 4) = 5 / 4"
  "float64 (5 / 10 * (3602879701896397 / 2 ^ 55)) = 3602879701896397 / 2 ^ 56"
  "float64 (5 / 4 + 3602879701896397 / 2 ^ 56) = 5854679515581645 / 2 ^ 52"
  "float64 (5854679515581645 / 2 ^ 52 - 1) = 1351079888211149 / 2 ^ 52"
  "float64 (1351079888211149 / 2 ^ 52 / (3602879701896397 / 2 ^ 55)) = 6755399441055745 / 2 ^ 51"
  "float64 (1 + 3602879701896397 / 2 ^ 55) = 4953959590107546 / 2 ^ 52"
  "float64 (4953959590107546 / 2 ^ 52 - 1) = 450359962737050 / 2 ^ 52"
  "float64 (2 * (450359962737050 / 2 ^ 52)) = 900719925474100 / 2 ^ 52"
  "float64 (1 + 900719925474100 / 2 ^ 52) = 5404319552844596 / 2 ^ 52"
  "float64 (3 * (450359962737050 / 2 ^ 52)) = 1351079888211150 / 2 ^ 52"
  "float64 (1 + 1351079888211150 / 2 ^ 52) = 5854679515581646 / 2 ^ 52"
  using float64_eval [of 0 52 1] float64_eval [of 0 52 "5 / 4"]
    float64_eval [of 0 57 "5 / 10 * (3602879701896397 / 2 ^ 55)"]
    float64_eval [of 0 52 "5 / 4 + 3602879701896397 / 2 ^ 56"]
    float64_eval [of 0 54 "5854679515581645 / 2 ^ 52 - 1"]
    float64_eval [of 0 51 "1351079888211149 / 2 ^ 52 / (3602879701896397 / 2 ^ 55)"]
    float64_eval [of 0 52 "1 + 3602879701896397 / 2 ^ 55"]
    float64_eval [of 0 56 "4953959590107546 / 2 ^ 52 - 1"]
    float64_eval [of 0 55 "2 * (450359962737050 / 2 ^ 52)"]
    float64_eval [of 0 52 "1 + 900719925474100 / 2 ^ 52"]
    float64_eval [of 0 54 "3 * (450359962737050 / 2 ^ 52)"]
    float64_eval [of 0 52 "1 + 1351079888211150 / 2 ^ 52"]
  by (simp_all add: rne_eval)

lemma count_events_f64_halfway:
  "count_events_f64 [] (1, 5 / 4) (3602879701896397 / 2 ^ 55) =
     Inr ([0, 0, 0],
          [1, 4953959590107546 / 2 ^ 52, 5404319552844596 / 2 ^ 52, 5854679515581646 / 2 ^ 52]) \<and>
   \<lceil>(5 / 4 - 1) / (3602879701896397 / 2 ^ 55) + 1 / (2::real)\<rceil> - 1 = 2"
proof
  let ?d = "3602879701896397 / 2 ^ 55 :: real"
  have d1: "is_double 1" and d2: "is_double (5 / 4)"
    by (simp_all add: is_double_def f64_example_halfway)
  have n: "4 = nat \<lceil>float64 (float64 (float64 (5 / 4 + float64 (0.5 * ?d)) - 1) / ?d)\<rceil>"
    unfolding f64_example_halfway by simp
  have e0: "edge_f64 1 ?d 0 = 1" and e1: "edge_f64 1 ?d 1 = 4953959590107546 / 2 ^ 52"
    unfolding edge_f64_def Let_def f64_example_halfway by simp_all
  have "edge_f64 1 ?d 2 = float64 (1 + float64 (real 2 * float64 (float64 (1 + ?d) - 1)))"
    by (rule edge_f64_ge2) simp
  then have e2: "edge_f64 1 ?d 2 = 5404319552844596 / 2 ^ 52"
    unfolding of_nat_numeral f64_example_halfway .
  have "edge_f64 1 ?d 3 = float64 (1 + float64 (real 3 * float64 (float64 (1 + ?d) - 1)))"
    by (rule edge_f64_ge2) simp
  then have e3: "edge_f64 1 ?d 3 = 5854679515581646 / 2 ^ 52"
    unfolding of_nat_numeral f64_example_halfway .
  have u: "[0 ..< 4] = [0, 1, 2, 3 :: nat]" by (simp add: eval_upt)
  have edges: "map (edge_f64 1 ?d) [0 ..< 4] =
      [1, 4953959590107546 / 2 ^ 52, 5404319552844596 / 2 ^ 52, 5854679515581646 / 2 ^ 52]"
    unfolding u list.map e0 e1 e2 e3 by (rule refl)
  have "count_events_f64 [] (1, 5 / 4) ?d =
          Inr (bin_counts [] (map (edge_f64 1 ?d) [0 ..< 4]), map (edge_f64 1 ?d) [0 ..< 4])"
    by (rule count_events_f64_eq(1) [OF d1 d2 _ _ n]) simp_all
  then show "count_events_f64 [] (1, 5 / 4) ?d =
     Inr ([0, 0, 0],
          [1, 4953959590107546 / 2 ^ 52, 5404319552844596 / 2 ^ 52, 5854679515581646 / 2 ^ 52])"
    unfolding edges by (simp add: count_in_def)
  show "\<lceil>(5 / 4 - 1) / ?d + 1 / (2::real)\<rceil> - 1 = 2" by simp
qed

text \<open>
  C5, as the code has it. For a window \<open>t_start < t_end\<close> of doubles and a bin width
  \<open>t_step > 0\<close> the Binner raises nothing and returns \<open>N - 1\<close> bins, where \<open>N\<close> is the
  ceiling of the quotient \<open>((t_end + 0.5*t_step) - t_start)/t_step\<close> computed in double
  arithmetic, each of the four operations rounded; where none of them rounds, that is
  \<open>ceil((t_end - t_start)/t_step + 1/2) - 1\<close> bins. The edges are those of
  \<open>edge_f64\<close>: \<open>t_start\<close>, the double sum \<open>t_start + t_step\<close>, then
  \<open>t_start + i * delta\<close> with \<open>delta = (t_start + t_step) - t_start\<close>, rounded. For an
  empty catalog every count is zero.
\<close>

theorem count_events_f64_bins:
  assumes "is_double t_start" and "is_double t_end"
    and "t_start < t_end" and "0 < t_step"
  shows "\<exists>counts bin_edges.
           count_events_f64 times' (t_start, t_end) t_step = Inr (counts, bin_edges) \<and>
           int (length counts) =
             \<lceil>float64 (float64 (float64 (t_end + float64 (0.5 * t_step)) - t_start) / t_step)\<rceil> - 1 \<and>
           bin_edges = map (edge_f64 t_start t_step) [0 ..< length counts + 1] \<and>
           (times' = [] \<longrightarrow> counts = replicate (length counts) 0) \<and>
           (is_double (0.5 * t_step) \<and> is_double (t_end + 0.5 * t_step) \<and>
            is_double (t_end + 0.5 * t_step - t_start) \<and>
            is_double ((t_end + 0.5 * t_step - t_start) / t_step) \<longrightarrow>
              int (length counts) = \<lceil>(t_end - t_start) / t_step + 1 / 2\<rceil> - 1)"
proof -
  define q where "q = float64 (float64 (float64 (t_end + float64 (0.5 * t_step)) - t_start) / t_step)"
  define n where "n = nat \<lceil>q\<rceil>"
  define bin_edges where "bin_edges = map (edge_f64 t_start t_step) [0 ..< n]"
  define counts where "counts = bin_counts times' bin_edges"
  have nd: "n = nat \<lceil>float64 (float64 (float64 (t_end + float64 (0.5 * t_step)) - t_start)
                           / t_step)\<rceil>"
    by (simp add: n_def q_def)
  have ce: "count_events_f64 times' (t_start, t_end) t_step = Inr (counts, bin_edges)"
    and n: "Suc 0 \<le> n"
    unfolding counts_def bin_edges_def using count_events_f64_eq [OF assms nd] by simp_all
  have len: "length counts = n - 1"
    unfolding counts_def bin_edges_def by (simp add: length_bin_counts)
  have "int n = \<lceil>q\<rceil>" using n unfolding n_def by (simp only: nat_0_le zero_less_nat_eq int_nat_eq) auto
  then have l: "int (length counts) = \<lceil>q\<rceil> - 1" using len n by simp
  have e: "bin_edges = map (edge_f64 t_start t_step) [0 ..< length counts + 1]"
    using len n unfolding bin_edges_def by simp
  have z: "times' = [] \<longrightarrow> counts = replicate (length counts) 0"
    using len unfolding counts_def bin_edges_def by (simp add: bin_counts_Nil)
  have x: "is_double (0.5 * t_step) \<and> is_double (t_end + 0.5 * t_step) \<and>
            is_double (t_end + 0.5 * t_step - t_start) \<and>
            is_double ((t_end + 0.5 * t_step - t_start) / t_step) \<longrightarrow>
              int (length counts) = \<lceil>(t_end - t_start) / t_step + 1 / 2\<rceil> - 1"
  proof
    assume "is_double (0.5 * t_step) \<and> is_double (t_end + 0.5 * t_step) \<and>
            is_double (t_end + 0.5 * t_step - t_start) \<and>
            is_double ((t_end + 0.5 * t_step - t_start) / t_step)"
    then have h: "float64 (0.5 * t_step) = 0.5 * t_step"
        "float64 (t_end + 0.5 * t_step) = t_end + 0.5 * t_step"
        "float64 (t_end + 0.5 * t_step - t_start) = t_end + 0.5 * t_step - t_start"
        "float64 ((t_end + 0.5 * t_step - t_start) / t_step) =
           (t_end + 0.5 * t_step - t_start) / t_step"
      unfolding is_double_def by blast+
    have "q = (t_end + 0.5 * t_step - t_start) / t_step"
      unfolding q_def h by (rule refl)
    also have "\<dots> = (t_end - t_start) / t_step + 1 / 2"
      using assms(4) by (simp add: field_simps)
    finally show "int (length counts) = \<lceil>(t_end - t_start) / t_step + 1 / 2\<rceil> - 1"
      using l by simp
  qed
  show ?thesis
    unfolding q_def [symmetric]
    by (intro exI conjI) (rule ce, rule l, rule e, rule z, rule x)
qed

theorem count_events_f64_bins_witness:
  "is_double 0 \<and> is_double (5 / 2) \<and> (0::real) < 5 / 2 \<and> (0::real) < 1 \<and>
   (\<exists>counts bin_edges.
      count_events_f64 [] (0, 5 / 2) 1 = Inr (counts, bin_edges) \<and>
      int (length counts) =
        \<lceil>float64 (float64 (float64 (5 / 2 + float64 (0.5 * 1)) - 0) / 1)\<rceil> - 1 \<and>
      bin_edges = map (edge_f64 0 1) [0 ..< length counts + 1] \<and>
      counts = replicate (length counts) 0 \<and>
      is_double (0.5 * 1) \<and> is_double (5 / 2 + 0.5 * 1) \<and>
      is_double (5 / 2 + 0.5 * 1 - 0) \<and> is_double ((5 / 2 + 0.5 * 1 - 0) / 1) \<and>
      int (length counts) = \<lceil>(5 / 2 - 0) / 1 + 1 / (2::real)\<rceil> - 1)"
proof -
  have h1: "is_double 0" and h2: "is_double (5 / 2)"
    and h3: "(0::real) < 5 / 2" and h4: "(0::real) < 1"
    by (simp_all add: is_double_def f64_values)
  have x: "is_double (0.5 * 1) \<and> is_double (5 / 2 + 0.5 * 1) \<and>
      is_double (5 / 2 + 0.5 * 1 - 0) \<and> is_double ((5 / 2 + 0.5 * 1 - 0) / 1)"
    by (simp add: is_double_def f64_values)
  show ?thesis using h1 h2 h3 h4 x count_events_f64_bins [OF h1 h2 h3 h4, of "[]"] by blast
qed

text \<open>
  C5, as the specification states it, fails where the window is not a whole number of
  bins: a window of length 2.25 with unit bins gets two bins, not \<open>ceil(2.25) = 3\<close>.
  Every number involved is a double and no operation rounds.
\<close>

theorem count_events_f64_bins_counterexample:
  "count_events_f64 [] (0, 9 / 4) 1 = Inr ([0, 0], [0, 1, 2]) \<and>
   length [0, 0 :: nat] \<noteq> nat \<lceil>(9 / 4 - 0) / (1::real)\<rceil>"
  by (simp add: count_events_f64_def arange_f64_def edge_f64_def histogram_def count_in_def
      eval_upt f64_values)

text \<open>
  C1, as the code has it. For a window \<open>t_start < t_end\<close> of doubles and a bin width
  \<open>t_step > 0\<close> the Binner raises nothing, whatever the catalog, and returns at least
  the edge \<open>t_start\<close>; when there is at least one bin, the counts add up to the number
  of events between \<open>t_start\<close> and the last bin edge, both included, and the last bin
  edge is the one \<open>edge_f64\<close> gives for the number of bins, which need not be
  \<open>t_end\<close>.
\<close>

theorem count_events_f64_sum:
  assumes "is_double t_start" and "is_double t_end"
    and "t_start < t_end" and "0 < t_step"
  shows "\<exists>counts bin_edges.
           count_events_f64 times' (t_start, t_end) t_step = Inr (counts, bin_edges) \<and>
           bin_edges \<noteq> [] \<and> hd bin_edges = t_start \<and>
           last bin_edges = edge_f64 t_start t_step (length counts) \<and>
           (counts \<noteq> [] \<longrightarrow> sum_list counts = count_in t_start (last bin_edges) times')"
proof -
  define n where "n = nat \<lceil>float64 (float64 (float64 (t_end + float64 (0.5 * t_step)) - t_start)
                           / t_step)\<rceil>"
  define bin_edges where "bin_edges = map (edge_f64 t_start t_step) [0 ..< n]"
  define counts where "counts = bin_counts times' bin_edges"
  have ce: "count_events_f64 times' (t_start, t_end) t_step = Inr (counts, bin_edges)"
    and n: "Suc 0 \<le> n"
    unfolding counts_def bin_edges_def using count_events_f64_eq [OF assms n_def] by simp_all
  have len: "length counts = n - 1"
    unfolding counts_def bin_edges_def by (simp add: length_bin_counts)
  have ne: "bin_edges \<noteq> []" unfolding bin_edges_def using n by simp
  have hd: "hd bin_edges = t_start"
    unfolding bin_edges_def using n by (simp add: hd_map upt_conv_Cons edge_f64_def del: upt_Suc)
  have lst: "last bin_edges = edge_f64 t_start t_step (length counts)"
    unfolding bin_edges_def len using n by (simp add: last_map)
  have sm: "counts \<noteq> [] \<longrightarrow> sum_list counts = count_in t_start (last bin_edges) times'"
  proof
    assume "counts \<noteq> []"
    then have "2 \<le> n" using len by (cases "n - 1") auto
    then show "sum_list counts = count_in t_start (last bin_edges) times'"
      unfolding lst len unfolding counts_def bin_edges_def
      by (rule count_events_f64_total [OF assms(1,4)])
  qed
  show ?thesis
    by (intro exI conjI) (rule ce, rule ne, rule hd, rule lst, rule sm)
qed

theorem count_events_f64_sum_witness:
  "is_double 0 \<and> is_double 3 \<and> (0::real) < 3 \<and> (0::real) < 1 \<and>
   (\<exists>counts bin_edges.
      count_events_f64 [1 / 2, 3, 7 / 2] (0, 3) 1 = Inr (counts, bin_edges) \<and>
      bin_edges \<noteq> [] \<and> hd bin_edges = 0 \<and>
      last bin_edges = edge_f64 0 1 (length counts) \<and> counts \<noteq> [] \<and>
      sum_list counts = count_in 0 (last bin_edges) [1 / 2, 3, 7 / 2])"
proof -
  have h1: "is_double 0" and h2: "is_double 3" and h3: "(0::real) < 3" and h4: "(0::real) < 1"
    by (simp_all add: is_double_def f64_values)
  obtain counts bin_edges where
    ce: "count_events_f64 [1 / 2, 3, 7 / 2] (0, 3) 1 = Inr (counts, bin_edges)" and
    a: "bin_edges \<noteq> []" "hd bin_edges = 0" "last bin_edges = edge_f64 0 1 (length counts)" and
    b: "counts \<noteq> [] \<longrightarrow> sum_list counts = count_in 0 (last bin_edges) [1 / 2, 3, 7 / 2]"
    using count_events_f64_sum [OF h1 h2 h3 h4, of "[1 / 2, 3, 7 / 2]"] by blast
  have "count_events_f64 [1 / 2, 3, 7 / 2] (0, 3) 1 = Inr ([1, 0, 1], [0, 1, 2, 3])"
    by (simp add: count_events_f64_def arange_f64_def edge_f64_def histogram_def count_in_def
        eval_upt f64_values f64_more)
  then have ne: "counts \<noteq> []" using ce by auto
  show ?thesis using h1 h2 h3 h4 ce a b ne by blast
qed

text \<open>
  C1, as the specification states it, fails in both directions when the window is not a
  whole number of bins: the event at 2.125 lies in the window \<open>[0, 2.25]\<close> and is not
  counted, since the last edge is 2; the event at 2.875 lies outside the window
  \<open>[0, 2.75]\<close> and is counted, since the last edge is 3. It also fails for a window that
  is a whole number of bins in decimal notation: in \<open>(1900, 2000)\<close> with the bin width
  \<open>0.1\<close> the event at 2000 is not counted.
\<close>

theorem count_events_f64_sum_counterexample:
  "count_events_f64 [17 / 8] (0, 9 / 4) 1 = Inr ([0, 0], [0, 1, 2]) \<and>
   sum_list [0, 0 :: nat] \<noteq> count_in 0 (9 / 4) [17 / 8] \<and>
   count_events_f64 [23 / 8] (0, 11 / 4) 1 = Inr ([0, 0, 1], [0, 1, 2, 3]) \<and>
   sum_list [0, 0, 1 :: nat] \<noteq> count_in 0 (11 / 4) [23 / 8] \<and>
   map_sum id (sum_list \<circ> fst)
     (count_events_f64 [2000] (1900, 2000) (3602879701896397 / 2 ^ 55)) = Inr 0 \<and>
   count_in 1900 2000 [2000] = 1"
proof (intro conjI)
  show "count_events_f64 [17 / 8] (0, 9 / 4) 1 = Inr ([0, 0], [0, 1, 2])"
    and "count_events_f64 [23 / 8] (0, 11 / 4) 1 = Inr ([0, 0, 1], [0, 1, 2, 3])"
    by (simp_all add: count_events_f64_def arange_f64_def edge_f64_def histogram_def
        count_in_def eval_upt f64_values)
  show "sum_list [0, 0 :: nat] \<noteq> count_in 0 (9 / 4) [17 / 8]"
    and "sum_list [0, 0, 1 :: nat] \<noteq> count_in 0 (11 / 4) [23 / 8]"
    and "count_in 1900 2000 [2000] = 1"
    by (simp_all add: count_in_def)
  show "map_sum id (sum_list \<circ> fst)
     (count_events_f64 [2000] (1900, 2000) (3602879701896397 / 2 ^ 55)) = Inr 0"
    by (rule count_events_f64_decimal)
qed

subsection \<open>Sums of floating-point values\<close>

lemma foldl_fadd_Fin: "foldl fadd (Fin a) (map Fin xs) = Fin (a + sum_list xs)"
  by (induction xs arbitrary: a) (simp_all add: add.assoc)

lemma fsum_Fin: "fsum (map Fin xs) = Fin (sum_list xs)"
  by (simp add: fsum_def foldl_fadd_Fin)

lemma foldl_fadd_NaN: "foldl fadd NaN xs = NaN"
  by (induction xs) simp_all

lemma fsum_NaN: "xs \<noteq> [] \<Longrightarrow> \<forall>x\<in>set xs. x = NaN \<Longrightarrow> fsum xs = NaN"
  by (cases xs) (simp_all add: fsum_def foldl_fadd_NaN)

lemma sum_list_real: "real (sum_list counts) = (\<Sum>c\<leftarrow>counts. real c)"
  by (induction counts) simp_all

lemma sum_list_zero: "sum_list (counts :: nat list) = 0 \<Longrightarrow> \<forall>c\<in>set counts. c = 0"
  by (induction counts) auto

subsection \<open>The dispersion test\<close>

text \<open>
  C3, as the code has it. Whenever the Count Series has at least two bins and a mean
  other than zero, the statistic that the Dispersion Test computes is
  \<open>(n - 1) * variance / mean\<close>, with \<open>n\<close> the number of bins and the sample variance
  and sample mean of the counts; the test returns the p-value alone,
  \<^verbatim>\<open>stats.chi2.sf\<close> of that statistic with \<open>n - 1\<close> degrees of freedom, the upper
  tail of the chi-square distribution; the statistic is printed, with the mean and the
  p-value, in verbose mode and is not returned.
\<close>

theorem dispersion_statistic:
  assumes "count_events times' time_range t_step = Inr (counts, bin_edges)"
    and "2 \<le> length counts" and "sample_mean counts \<noteq> 0"
  shows "\<exists>statistic p_value.
           statistic = real (length counts - 1) * sample_variance counts / sample_mean counts \<and>
           p_value = Chi2_sf (Fin statistic) (int (length counts) - 1) \<and>
           dispersion times' time_range t_step verbose =
             (if verbose
              then [Format ''X_mean, chi_squared, p-value: %g, %g, %.2g''
                      [Float (Fin (sample_mean counts)), Float (Fin statistic), p_value]]
              else [],
              Inr p_value)"
proof -
  define m where "m = sample_mean counts"
  have ne: "counts \<noteq> []" using assms(2) by auto
  have mean: "np_mean (map real counts) = Fin m"
    using ne by (simp add: np_mean_def m_def sample_mean_def)
  have "fsum (map (\<lambda>c. case Fin m of Fin m \<Rightarrow> fdiv ((real c - m)\<^sup>2) m | _ \<Rightarrow> NaN) counts)
          = fsum (map Fin (map (\<lambda>c. (real c - m)\<^sup>2 / m) counts))"
    using assms(3) by (simp add: fdiv_def m_def comp_def)
  also have "\<dots> = Fin (\<Sum>c\<leftarrow>counts. (real c - m)\<^sup>2 / m)" by (rule fsum_Fin)
  also have "(\<Sum>c\<leftarrow>counts. (real c - m)\<^sup>2 / m) = (\<Sum>c\<leftarrow>counts. (real c - m)\<^sup>2) / m"
    by (induction counts) (simp_all add: add_divide_distrib)
  also have "\<dots> = real (length counts - 1) * sample_variance counts / m"
    using assms(2) by (simp add: sample_variance_def m_def)
  finally show ?thesis
    using assms(1) mean by (simp add: dispersion_def Let_def m_def)
qed

theorem dispersion_statistic_witness:
  "count_events [1/2, 3/2, 7/4] (0, 2) 1 = Inr ([1, 2], [0, 1, 2]) \<and>
   2 \<le> length [1, 2 :: nat] \<and> sample_mean [1, 2] \<noteq> 0 \<and>
   (\<exists>statistic p_value.
      statistic = real (length [1, 2 :: nat] - 1) * sample_variance [1, 2] / sample_mean [1, 2] \<and>
      p_value = Chi2_sf (Fin statistic) (int (length [1, 2 :: nat]) - 1) \<and>
      dispersion [1/2, 3/2, 7/4] (0, 2) 1 True =
        ([Format ''X_mean, chi_squared, p-value: %g, %g, %.2g''
            [Float (Fin (sample_mean [1, 2])), Float (Fin statistic), p_value]],
         Inr p_value))"
proof -
  have h1: "count_events [1/2, 3/2, 7/4] (0, 2) 1 = Inr ([1, 2], [0, 1, 2])"
    by (simp add: count_events_def arange_def histogram_def count_in_def eval_upt)
  have h2: "2 \<le> length [1, 2 :: nat]" by simp
  have h3: "sample_mean [1, 2] \<noteq> 0" by (simp add: sample_mean_def)
  show ?thesis using h1 h2 h3 dispersion_statistic [OF h1 h2 h3, of True] by simp
qed

text \<open>
  C3, as the specification states it, fails on every input in what the call returns: for
  the counts \<open>[1, 2]\<close> the statistic is \<open>1/3\<close>, and the call returns the p-value and
  nothing else; without verbose mode nothing is printed.
\<close>

theorem dispersion_statistic_counterexample:
  "dispersion [1 / 2, 3 / 2, 7 / 4] (0, 2) 1 False = ([], Inr (Chi2_sf (Fin (1 / 3)) 1)) \<and>
   real (length [1, 2 :: nat] - 1) * sample_variance [1, 2] / sample_mean [1, 2] = 1 / 3"
  by (simp add: dispersion_def count_events_def arange_def histogram_def count_in_def eval_upt
      np_mean_def fsum_def fdiv_def power2_eq_square sample_variance_def sample_mean_def)

text \<open>
  C7, as the code has it. The Dispersion Test checks neither the number of bins nor the
  mean: for a window \<open>t_start < t_end\<close> and a bin width \<open>t_step > 0\<close> it raises nothing
  and returns \<^verbatim>\<open>stats.chi2.sf(statistic, n - 1)\<close>. With fewer than two bins or a zero
  mean the statistic is NaN (from \<open>0/0\<close>) when there is a bin and every count is zero,
  and 0 otherwise.
\<close>

theorem dispersion_no_check:
  assumes "t_start < t_end" and "0 < t_step"
  shows "\<exists>counts bin_edges statistic.
           count_events times' (t_start, t_end) t_step = Inr (counts, bin_edges) \<and>
           snd (dispersion times' (t_start, t_end) t_step verbose) =
             Inr (Chi2_sf statistic (int (length counts) - 1)) \<and>
           (length counts < 2 \<or> sum_list counts = 0 \<longrightarrow>
              statistic = (if counts \<noteq> [] \<and> sum_list counts = 0 then NaN else Fin 0))"
proof -
  obtain counts bin_edges where
    ce: "count_events times' (t_start, t_end) t_step = Inr (counts, bin_edges)"
    using count_events_eq [OF assms refl] by blast
  define mean where "mean = np_mean (map real counts)"
  define statistic where "statistic =
    fsum (map (\<lambda>c. case mean of Fin m \<Rightarrow> fdiv ((real c - m)\<^sup>2) m | _ \<Rightarrow> NaN) counts)"
  have d: "snd (dispersion times' (t_start, t_end) t_step verbose) =
             Inr (Chi2_sf statistic (int (length counts) - 1))"
    using ce by (simp add: dispersion_def Let_def statistic_def mean_def)
  have imp: "length counts < 2 \<or> sum_list counts = 0 \<longrightarrow>
      statistic = (if counts \<noteq> [] \<and> sum_list counts = 0 then NaN else Fin 0)"
  proof
    assume deg: "length counts < 2 \<or> sum_list counts = 0"
    show "statistic = (if counts \<noteq> [] \<and> sum_list counts = 0 then NaN else Fin 0)"
    proof (cases "counts = []")
      case True
      then show ?thesis by (simp add: statistic_def fsum_def)
    next
      case ne: False
      show ?thesis
      proof (cases "sum_list counts = 0")
        case True
        then have z: "\<forall>c\<in>set counts. c = 0" by (rule sum_list_zero)
        have "mean = Fin 0"
          using ne True by (simp add: mean_def np_mean_def sum_list_real [symmetric])
        then have "\<forall>x\<in>set (map (\<lambda>c. case mean of Fin m \<Rightarrow> fdiv ((real c - m)\<^sup>2) m | _ \<Rightarrow> NaN)
                     counts). x = NaN"
          using z by (simp add: fdiv_def)
        then have "statistic = NaN" unfolding statistic_def using ne by (intro fsum_NaN) simp_all
        then show ?thesis using ne True by simp
      next
        case False
        with deg have "length counts < 2" by blast
        then obtain c where c: "counts = [c]" using ne
          by (cases counts) (auto simp: less_Suc_eq numeral_2_eq_2)
        then have "c \<noteq> 0" using False by simp
        then have "statistic = Fin 0"
          by (simp add: statistic_def mean_def np_mean_def c fsum_def fdiv_def)
        then show ?thesis using False by simp
      qed
    qed
  qed
  show ?thesis
    by (intro exI conjI) (rule ce, rule d, rule imp)
qed

theorem dispersion_no_check_witness:
  "(0::real) < 2 \<and> (0::real) < 1 \<and>
   (\<exists>counts bin_edges statistic.
      count_events [] (0, 2) 1 = Inr (counts, bin_edges) \<and>
      snd (dispersion [] (0, 2) 1 False) = Inr (Chi2_sf statistic (int (length counts) - 1)) \<and>
      (length counts < 2 \<or> sum_list counts = 0) \<and>
      statistic = (if counts \<noteq> [] \<and> sum_list counts = 0 then NaN else Fin 0))"
proof -
  have h1: "(0::real) < 2" and h2: "(0::real) < 1" by simp_all
  obtain counts bin_edges statistic where
    ce: "count_events [] (0, 2) 1 = Inr (counts, bin_edges)" and
    d: "snd (dispersion [] (0, 2) 1 False) = Inr (Chi2_sf statistic (int (length counts) - 1))" and
    i: "length counts < 2 \<or> sum_list counts = 0 \<longrightarrow>
          statistic = (if counts \<noteq> [] \<and> sum_list counts = 0 then NaN else Fin 0)"
    using dispersion_no_check [OF h1 h2, of "[]" False] by auto
  have "count_events [] (0, 2) 1 = Inr ([0, 0], [0, 1, 2])"
    by (simp add: count_events_def arange_def histogram_def count_in_def eval_upt)
  then have "sum_list counts = 0" using ce by auto
  then show ?thesis using h1 h2 ce d i by blast
qed

text \<open>
  C7, as the specification states it, fails for a catalog with exactly one event: the
  event 0.5 in the window \<open>[0, 2]\<close> with unit bins has the counts \<open>[1, 0]\<close>, the
  statistic 1, and the test returns a p-value.
\<close>

theorem dispersion_no_check_counterexample:
  "dispersion [1 / 2] (0, 2) 1 False = ([], Inr (Chi2_sf (Fin 1) 1))"
  by (simp add: dispersion_def count_events_def arange_def histogram_def count_in_def eval_upt
      np_mean_def fsum_def fdiv_def power2_eq_square)

subsection \<open>The variance-stabilized test\<close>

text \<open>The statistic is \<open>4 * sum((y - mean(y))^2)\<close> with \<open>y = sqrt(count + 3/8)\<close>; it is
  handed to \<^verbatim>\<open>stats.norm.sf\<close> with the location \<open>n - 1\<close>.\<close>

lemma brown_zhao_general:
  assumes "count_events times' time_range t_step = Inr (counts, bin_edges)"
    and "counts \<noteq> []"
  shows "snd (brown_zhao times' time_range t_step verbose) =
           Inr (Norm_sf
                  (Fin (4 * (\<Sum>c\<leftarrow>counts. (sqrt (real c + 3 / 8)
                          - (\<Sum>c\<leftarrow>counts. sqrt (real c + 3 / 8)) / real (length counts))\<^sup>2)))
                  (int (length counts) - 1))"
proof -
  define m where "m = (\<Sum>c\<leftarrow>counts. sqrt (real c + 3 / 8)) / real (length counts)"
  have mean: "np_mean (map (\<lambda>c. sqrt (real c + 3 / 8)) counts) = Fin m"
    using assms(2) by (simp add: np_mean_def m_def comp_def)
  have "fsum (map (\<lambda>y. case Fin m of Fin m \<Rightarrow> Fin ((y - m)\<^sup>2) | _ \<Rightarrow> NaN)
                (map (\<lambda>c. sqrt (real c + 3 / 8)) counts))
          = fsum (map Fin (map (\<lambda>c. (sqrt (real c + 3 / 8) - m)\<^sup>2) counts))"
    by (simp add: comp_def)
  also have "\<dots> = Fin (\<Sum>c\<leftarrow>counts. (sqrt (real c + 3 / 8) - m)\<^sup>2)" by (rule fsum_Fin)
  finally show ?thesis
    using assms(1) mean by (simp add: brown_zhao_def Let_def m_def)
qed

text \<open>
  C4 at a concrete catalog: the events 0.5 and 1.5 in the window \<open>[0, 2]\<close> with unit
  bins have the counts \<open>[1, 1]\<close> and the statistic 0. The test returns
  \<^verbatim>\<open>stats.norm.sf(0, 1)\<close>, the upper tail at 0 of a normal distribution centred at
  \<open>n - 1 = 1\<close>, where a chi-square test with \<open>n - 1\<close> degrees of freedom returns
  \<^verbatim>\<open>stats.chi2.sf(0, 1)\<close>.
\<close>

theorem brown_zhao_reference:
  "brown_zhao [1 / 2, 3 / 2] (0, 2) 1 False = ([], Inr (Norm_sf (Fin 0) 1))"
  by (simp add: brown_zhao_def count_events_def arange_def histogram_def count_in_def eval_upt
      np_mean_def fsum_def)

subsection \<open>The interval tests\<close>

text \<open>The statistic of \<^verbatim>\<open>kstest\<close> against the uniform distribution is the largest
  distance between the empirical distribution function of the sample and the uniform
  distribution function.\<close>

lemma finite_values_Fin: "finite_values (map Fin xs) = Some xs"
  by (induction xs) simp_all


lemma filter_le_sorted:
  "sorted vs \<Longrightarrow> filter (\<lambda>v. v \<le> x) vs = takeWhile (\<lambda>v. v \<le> (x::real)) vs"
proof (induction vs)
  case (Cons a vs)
  show ?case
  proof (cases "a \<le> x")
    case True
    then show ?thesis using Cons by simp
  next
    case False
    then have "\<forall>v\<in>set vs. \<not> v \<le> x" using Cons.prems by auto
    then show ?thesis using False by simp
  qed
qed simp

lemma length_filter_sort: "length (filter P (sort xs)) = length (filter P xs)"
  by (simp add: filter_sort)

lemma ecdf_sort: "ecdf (sort xs) x = ecdf xs x"
  by (simp add: ecdf_def length_filter_sort)

lemma maximum_Max: "xs \<noteq> [] \<Longrightarrow> maximum xs = Max (set xs)"
  by (induction xs rule: maximum.induct) simp_all

lemma maximum_ge: "x \<in> set xs \<Longrightarrow> x \<le> maximum xs"
  by (cases "xs = []") (simp_all add: maximum_Max)

lemma maximum_in: "xs \<noteq> [] \<Longrightarrow> maximum xs \<in> set xs"
  using Max_in [of "set xs"] by (simp add: maximum_Max)

lemma uniform_cdf_mono: "x \<le> y \<Longrightarrow> uniform_cdf x \<le> uniform_cdf y"
  by (simp add: uniform_cdf_def)

lemma uniform_cdf_range: "0 \<le> uniform_cdf x" "uniform_cdf x \<le> 1"
  by (simp_all add: uniform_cdf_def)

lemma uniform_cdf_lipschitz: "0 \<le> d \<Longrightarrow> uniform_cdf x - d \<le> uniform_cdf (x - d)"
  by (simp add: uniform_cdf_def)

lemma ecdf_below:
  fixes vals :: "real list"
  assumes "sorted vals" and "i < length vals" and "x < vals ! i"
  shows "length (filter (\<lambda>v. v \<le> x) vals) \<le> i"
proof (rule ccontr)
  assume "\<not> length (filter (\<lambda>v. v \<le> x) vals) \<le> i"
  then have i: "i < length (takeWhile (\<lambda>v. v \<le> x) vals)"
    by (simp add: filter_le_sorted [OF assms(1)])
  then have "takeWhile (\<lambda>v. v \<le> x) vals ! i \<in> set (takeWhile (\<lambda>v. v \<le> x) vals)"
    by (rule nth_mem)
  then have "takeWhile (\<lambda>v. v \<le> x) vals ! i \<le> x" by (rule set_takeWhileD [THEN conjunct2])
  then have "vals ! i \<le> x" using i by (simp add: takeWhile_nth)
  then show False using assms(3) by simp
qed

lemma ecdf_above:
  fixes vals :: "real list"
  assumes "sorted vals" and "i < length vals" and "vals ! i \<le> x"
  shows "i + 1 \<le> length (filter (\<lambda>v. v \<le> x) vals)"
proof -
  have "vals ! j \<le> x" if "j < i + 1" for j
  proof -
    have "vals ! j \<le> vals ! i" using assms(1,2) that by (intro sorted_nth_mono) simp_all
    then show ?thesis using assms(3) by simp
  qed
  then have "i + 1 \<le> length (takeWhile (\<lambda>v. v \<le> x) vals)"
    using assms(2) by (intro length_takeWhile_less_P_nth) simp_all
  then show ?thesis by (simp add: filter_le_sorted [OF assms(1)])
qed

lemma ecdf_next:
  fixes vals :: "real list"
  assumes "sorted vals" and "length (filter (\<lambda>v. v \<le> x) vals) < length vals"
  shows "x < vals ! length (filter (\<lambda>v. v \<le> x) vals)"
  using nth_length_takeWhile [of "\<lambda>v. v \<le> x" vals] assms(2)
  by (simp add: filter_le_sorted [OF assms(1)])

lemma ecdf_prev:
  fixes vals :: "real list"
  assumes "sorted vals" and "0 < length (filter (\<lambda>v. v \<le> x) vals)"
  shows "vals ! (length (filter (\<lambda>v. v \<le> x) vals) - 1) \<le> x"
proof -
  let ?k = "length (takeWhile (\<lambda>v. v \<le> x) vals)"
  have k: "0 < ?k" using assms(2) by (simp add: filter_le_sorted [OF assms(1)])
  then have "takeWhile (\<lambda>v. v \<le> x) vals ! (?k - 1) \<in> set (takeWhile (\<lambda>v. v \<le> x) vals)"
    by (intro nth_mem) simp
  then have "takeWhile (\<lambda>v. v \<le> x) vals ! (?k - 1) \<le> x"
    by (rule set_takeWhileD [THEN conjunct2])
  then have "vals ! (?k - 1) \<le> x" using k by (simp add: takeWhile_nth)
  then show ?thesis by (simp add: filter_le_sorted [OF assms(1)])
qed

lemma ks_distance_sup:
  assumes "xs \<noteq> []"
  shows "ks_distance uniform_cdf xs = (SUP x. \<bar>ecdf xs x - uniform_cdf x\<bar>)"
proof -
  define vals where "vals = sort xs"
  define N where "N = length vals"
  define Dp where "Dp = map (\<lambda>i. real (i + 1) / real N - uniform_cdf (vals ! i)) [0 ..< N]"
  define Dm where "Dm = map (\<lambda>i. uniform_cdf (vals ! i) - real i / real N) [0 ..< N]"
  define D where "D = max (maximum Dp) (maximum Dm)"
  define k where "k x = length (filter (\<lambda>v. v \<le> x) vals)" for x
  have srt: "sorted vals" by (simp add: vals_def)
  have N: "0 < N" using assms by (simp add: N_def vals_def)
  have D: "ks_distance uniform_cdf xs = D"
    by (simp add: ks_distance_def Let_def D_def Dp_def Dm_def N_def vals_def)
  have e: "ecdf xs x = real (k x) / real N" for x
    by (simp add: ecdf_def k_def vals_def N_def length_filter_sort)
  have kN: "k x \<le> N" for x by (simp add: k_def N_def)
  have Dp_ge: "real (i + 1) / real N - uniform_cdf (vals ! i) \<le> D" if "i < N" for i
  proof -
    have "i \<in> set [0 ..< N]" using that by simp
    then have "real (i + 1) / real N - uniform_cdf (vals ! i) \<in> set Dp"
      unfolding Dp_def set_map by (rule imageI)
    then show ?thesis unfolding D_def using maximum_ge by fastforce
  qed
  have Dm_ge: "uniform_cdf (vals ! i) - real i / real N \<le> D" if "i < N" for i
  proof -
    have "i \<in> set [0 ..< N]" using that by simp
    then have "uniform_cdf (vals ! i) - real i / real N \<in> set Dm"
      unfolding Dm_def set_map by (rule imageI)
    then show ?thesis unfolding D_def using maximum_ge by fastforce
  qed
  have D0: "0 \<le> D"
  proof -
    have "real (N - 1 + 1) / real N - uniform_cdf (vals ! (N - 1)) \<le> D"
      using N by (intro Dp_ge) simp
    moreover have "real (N - 1 + 1) / real N = 1" using N by simp
    ultimately show ?thesis using uniform_cdf_range(2) [of "vals ! (N - 1)"] by linarith
  qed
  have upper: "\<bar>ecdf xs x - uniform_cdf x\<bar> \<le> D" for x
  proof -
    have a: "real (k x) / real N - uniform_cdf x \<le> D"
    proof (cases "k x = 0")
      case True
      then show ?thesis using D0 uniform_cdf_range(1) [of x] by simp
    next
      case False
      then have "vals ! (k x - 1) \<le> x" unfolding k_def using srt by (intro ecdf_prev) simp_all
      then have "uniform_cdf (vals ! (k x - 1)) \<le> uniform_cdf x" by (rule uniform_cdf_mono)
      moreover have "real (k x - 1 + 1) / real N - uniform_cdf (vals ! (k x - 1)) \<le> D"
        using False kN [of x] by (intro Dp_ge) simp
      moreover have "k x - 1 + 1 = k x" using False by simp
      ultimately show ?thesis by simp
    qed
    have b: "uniform_cdf x - real (k x) / real N \<le> D"
    proof (cases "k x = N")
      case True
      then show ?thesis using D0 uniform_cdf_range(2) [of x] N by simp
    next
      case False
      then have lt: "k x < N" using kN [of x] by simp
      then have "x < vals ! k x" unfolding k_def N_def using srt by (intro ecdf_next) simp_all
      then have "uniform_cdf x \<le> uniform_cdf (vals ! k x)" by (intro uniform_cdf_mono) simp
      moreover have "uniform_cdf (vals ! k x) - real (k x) / real N \<le> D" using lt by (rule Dm_ge)
      ultimately show ?thesis by simp
    qed
    show ?thesis using a b by (simp add: e abs_le_iff)
  qed
  have lower: "\<exists>x. y < \<bar>ecdf xs x - uniform_cdf x\<bar>" if y: "y < D" for y
  proof (cases "maximum Dm \<le> maximum Dp")
    case True
    then have "D = maximum Dp" by (simp add: D_def)
    moreover have "maximum Dp \<in> set Dp" using N by (intro maximum_in) (simp add: Dp_def)
    ultimately obtain i where i: "i < N"
      and Di: "D = real (i + 1) / real N - uniform_cdf (vals ! i)"
      unfolding Dp_def by auto
    have "i + 1 \<le> k (vals ! i)" unfolding k_def using srt i by (intro ecdf_above) (simp_all add: N_def)
    then have "real (i + 1) / real N \<le> real (k (vals ! i)) / real N"
      using N by (intro divide_right_mono) simp_all
    then have "D \<le> ecdf xs (vals ! i) - uniform_cdf (vals ! i)" by (simp add: e Di)
    then have "y < \<bar>ecdf xs (vals ! i) - uniform_cdf (vals ! i)\<bar>" using y by linarith
    then show ?thesis ..
  next
    case False
    then have "D = maximum Dm" by (simp add: D_def)
    moreover have "maximum Dm \<in> set Dm" using N by (intro maximum_in) (simp add: Dm_def)
    ultimately obtain i where i: "i < N"
      and Di: "D = uniform_cdf (vals ! i) - real i / real N"
      unfolding Dm_def by auto
    define d where "d = (D - y) / 2"
    have d: "0 < d" using y by (simp add: d_def)
    have "k (vals ! i - d) \<le> i"
      unfolding k_def using srt i d by (intro ecdf_below) (simp_all add: N_def)
    then have "real (k (vals ! i - d)) / real N \<le> real i / real N"
      using N by (intro divide_right_mono) simp_all
    moreover have "uniform_cdf (vals ! i) - d \<le> uniform_cdf (vals ! i - d)"
      using d by (intro uniform_cdf_lipschitz) simp
    ultimately have "D - d \<le> uniform_cdf (vals ! i - d) - ecdf xs (vals ! i - d)"
      by (simp add: e Di)
    moreover have "y < D - d" using y by (simp add: d_def field_simps)
    ultimately have "y < \<bar>ecdf xs (vals ! i - d) - uniform_cdf (vals ! i - d)\<bar>" by linarith
    then show ?thesis ..
  qed
  have "Sup (range (\<lambda>x. \<bar>ecdf xs x - uniform_cdf x\<bar>)) = D"
  proof (rule cSup_eq_non_empty)
    show "range (\<lambda>x. \<bar>ecdf xs x - uniform_cdf x\<bar>) \<noteq> {}" by simp
    show "z \<le> D" if "z \<in> range (\<lambda>x. \<bar>ecdf xs x - uniform_cdf x\<bar>)" for z
      using that upper by auto
    show "D \<le> z" if "\<And>w. w \<in> range (\<lambda>x. \<bar>ecdf xs x - uniform_cdf x\<bar>) \<Longrightarrow> w \<le> z" for z
    proof (rule ccontr)
      assume "\<not> D \<le> z"
      then obtain x where "z < \<bar>ecdf xs x - uniform_cdf x\<bar>" using lower [of z] by auto
      then show False using that [of "\<bar>ecdf xs x - uniform_cdf x\<bar>"] by simp
    qed
  qed
  then show ?thesis by (simp add: D)
qed

text \<open>
  C8, as the code has it. For every catalog that is not empty and every window
  \<open>t_start < t_end\<close>, the uniform-order test normalizes each timestamp as
  \<open>(t - t_start)/(t_end - t_start)\<close> and hands the normalized values to
  \<^verbatim>\<open>stats.kstest\<close> with the \<^verbatim>\<open>'uniform'\<close> reference, which sorts them and computes the
  Kolmogorov-Smirnov statistic, the maximum absolute difference between their empirical
  distribution function and the uniform distribution function on \<open>[0, 1]\<close>, and its
  p-value. The test returns the p-value alone; the statistic is printed in verbose mode
  and is not returned.
\<close>

theorem uniform_order_test:
  assumes "times' \<noteq> []" and "t_start < t_end"
  shows "\<exists>normalized statistic pvalue.
           normalized = map (\<lambda>t. (t - t_start) / (t_end - t_start)) times' \<and>
           statistic = Kstest_statistic (map Fin normalized) ''uniform'' \<and>
           pvalue = Kstest_pvalue (map Fin normalized) ''uniform'' \<and>
           kolmogorov_smirnov times' (t_start, t_end) ''uniform'' mean_wait t_step verbose =
             (if verbose
              then [Format ''mean wait, statistic, p-value: %g, %g, %.2g''
                      [Float (Fin (case mean_wait of
                                     None \<Rightarrow> (t_end - t_start) / real (length times')
                                   | Some w \<Rightarrow> w)),
                       statistic, pvalue]]
              else [],
              Inr pvalue) \<and>
           kstest_statistic (map Fin normalized) ''uniform'' =
             Some (ks_distance uniform_cdf normalized) \<and>
           ks_distance uniform_cdf normalized =
             (SUP x. \<bar>ecdf normalized x - uniform_cdf x\<bar>)"
proof -
  define normalized where "normalized = map (\<lambda>t. (t - t_start) / (t_end - t_start)) times'"
  have ne: "normalized \<noteq> []" using assms(1) by (simp add: normalized_def)
  have m: "map (\<lambda>t. fdiv (t - t_start) (t_end - t_start)) times' = map Fin normalized"
    using assms(2) by (simp add: normalized_def fdiv_def)
  have k: "kolmogorov_smirnov times' (t_start, t_end) ''uniform'' mean_wait t_step verbose =
             (if verbose
              then [Format ''mean wait, statistic, p-value: %g, %g, %.2g''
                      [Float (Fin (case mean_wait of
                                     None \<Rightarrow> (t_end - t_start) / real (length times')
                                   | Some w \<Rightarrow> w)),
                       Kstest_statistic (map Fin normalized) ''uniform'',
                       Kstest_pvalue (map Fin normalized) ''uniform'']]
              else [],
              Inr (Kstest_pvalue (map Fin normalized) ''uniform''))"
    using assms(1) ne by (simp add: kolmogorov_smirnov_def Let_def kstest_def m)
  have s: "kstest_statistic (map Fin normalized) ''uniform'' =
             Some (ks_distance uniform_cdf normalized)"
    using ne by (simp add: kstest_statistic_def finite_values_Fin)
  have d: "ks_distance uniform_cdf normalized = (SUP x. \<bar>ecdf normalized x - uniform_cdf x\<bar>)"
    using ne by (rule ks_distance_sup)
  show ?thesis
    by (intro exI conjI) (rule normalized_def, rule refl, rule refl, rule k, rule s, rule d)
qed

theorem uniform_order_test_witness:
  "[1, 3 / 2] \<noteq> ([] :: real list) \<and> (1::real) < 3 \<and>
   kolmogorov_smirnov [1, 3 / 2] (1, 3) ''uniform'' None 1 True =
     ([Format ''mean wait, statistic, p-value: %g, %g, %.2g''
         [Float (Fin 1), Kstest_statistic [Fin 0, Fin (1 / 4)] ''uniform'',
          Kstest_pvalue [Fin 0, Fin (1 / 4)] ''uniform'']],
      Inr (Kstest_pvalue [Fin 0, Fin (1 / 4)] ''uniform'')) \<and>
   kstest_statistic [Fin 0, Fin (1 / 4)] ''uniform'' = Some (ks_distance uniform_cdf [0, 1 / 4]) \<and>
   ks_distance uniform_cdf [0, 1 / 4] = (SUP x. \<bar>ecdf [0, 1 / 4] x - uniform_cdf x\<bar>)"
proof -
  have h1: "[1, 3 / 2] \<noteq> ([] :: real list)" and h2: "(1::real) < 3" by simp_all
  show ?thesis using h1 h2 uniform_order_test [OF h1 h2, of None 1 True] by simp
qed

text \<open>
  C8, as the specification states it, fails on every input in what the call returns: for
  the catalog \<open>[1, 1.5]\<close> in the window \<open>[1, 3]\<close> the normalized values are
  \<open>[0, 0.25]\<close> and the statistic is \<open>3/4\<close>, and the call returns the p-value and nothing
  else. It also fails for the empty catalog, whose events all lie in any window:
  inferring the mean wait divides by the number of events, and with a mean wait supplied
  \<^verbatim>\<open>stats.kstest\<close> refuses the empty sample.
\<close>

theorem uniform_order_test_counterexample:
  "kolmogorov_smirnov [1, 3 / 2] (1, 3) ''uniform'' None 1 False =
     ([], Inr (Kstest_pvalue [Fin 0, Fin (1 / 4)] ''uniform'')) \<and>
   kstest_statistic [Fin 0, Fin (1 / 4)] ''uniform'' = Some (3 / 4) \<and>
   kolmogorov_smirnov [] (0, 1) ''uniform'' None 1 False = ([], Inl ZeroDivisionError) \<and>
   kolmogorov_smirnov [] (0, 1) ''uniform'' (Some 1) 1 False = ([], Inl ValueError)"
  by (simp add: kolmogorov_smirnov_def kstest_def fdiv_def kstest_statistic_def ks_distance_def
      uniform_cdf_def eval_upt)

text \<open>
  C9, as the code has it. When the caller supplies no \<open>mean_wait\<close> and the catalog has
  at least two events, the exponential-wait test infers \<open>mean_wait\<close> as the length of
  the window divided by the number of events, divides the gaps by it, prints the
  warning only in verbose mode, and returns the p-value of \<^verbatim>\<open>stats.kstest\<close> against
  \<^verbatim>\<open>'expon'\<close>.
\<close>

theorem exponential_wait_inferred:
  assumes "2 \<le> length times'" and "t_start < t_end"
  shows "\<exists>normalized.
           normalized =
             map (\<lambda>d. Fin (d / ((t_end - t_start) / real (length times')))) (np_diff times') \<and>
           kolmogorov_smirnov times' (t_start, t_end) ''expon'' None t_step verbose =
             (if verbose
              then [Text ''WARNING: Using inferred mean wait'',
                    Format ''mean wait, statistic, p-value: %g, %g, %.2g''
                      [Float (Fin ((t_end - t_start) / real (length times'))),
                       Kstest_statistic normalized ''expon'',
                       Kstest_pvalue normalized ''expon'']]
              else [],
              Inr (Kstest_pvalue normalized ''expon''))"
proof -
  obtain x y xs where t: "times' = x # y # xs"
    using assms(1) by (cases times'; cases "tl times'") auto
  have "(t_end - t_start) / real (length times') \<noteq> 0" using assms(2) t by simp
  then show ?thesis
    using t by (simp add: kolmogorov_smirnov_def Let_def kstest_def fdiv_def)
qed

theorem exponential_wait_inferred_witness:
  "2 \<le> length [0, 1, 3 :: real] \<and> (0::real) < 6 \<and>
   kolmogorov_smirnov [0, 1, 3] (0, 6) ''expon'' None 1 True =
     ([Text ''WARNING: Using inferred mean wait'',
       Format ''mean wait, statistic, p-value: %g, %g, %.2g''
         [Float (Fin 2), Kstest_statistic [Fin (1 / 2), Fin 1] ''expon'',
          Kstest_pvalue [Fin (1 / 2), Fin 1] ''expon'']],
      Inr (Kstest_pvalue [Fin (1 / 2), Fin 1] ''expon''))"
proof -
  have h1: "2 \<le> length [0, 1, 3 :: real]" and h2: "(0::real) < 6" by simp_all
  show ?thesis using h1 h2 exponential_wait_inferred [OF h1 h2, of 1 True] by simp
qed

text \<open>
  C9, as the specification states it, fails twice at the catalog \<open>[0, 1]\<close> in the window
  \<open>[0, 10]\<close>: the sample mean gap is 1, the mean wait used is \<open>10/2 = 5\<close> (the gap 1 is
  normalized to \<open>1/5\<close>); and without verbose mode nothing flags the inference.
\<close>

theorem exponential_wait_inferred_counterexample:
  "kolmogorov_smirnov [0, 1] (0, 10) ''expon'' None 1 False =
     ([], Inr (Kstest_pvalue [Fin (1 / 5)] ''expon'')) \<and>
   sample_mean_gap [0, 1] = 1"
  by (simp add: kolmogorov_smirnov_def kstest_def fdiv_def sample_mean_gap_def)

subsection \<open>The Combiner\<close>

lemma vstack_scalars:
  "ps \<noteq> [] \<Longrightarrow> vstack (map Scalar ps) = Inr (map (\<lambda>p. [p]) ps)"
  by (cases ps) (simp_all add: vstack_def list_ex_iff comp_def)

lemma T_scalars: "ps \<noteq> [] \<Longrightarrow> T (map (\<lambda>p. [p]) ps) = [ps]"
  by (cases ps) (simp_all add: T_def comp_def)

lemma combine_scalars:
  "ps \<noteq> [] \<Longrightarrow>
   combine_pvalues (map Scalar ps) ''fisher'' =
     Inr [Chi2_sf (fscale (- 2) (fsum (map flog ps))) (2 * int (length ps))]"
  by (simp add: combine_pvalues_def vstack_scalars T_scalars scipy_combine_pvalues_def Let_def)

lemma fsum_flog_pos:
  "\<forall>p\<in>set ps. 0 < p \<Longrightarrow> fsum (map flog ps) = Fin (\<Sum>p\<leftarrow>ps. ln p)"
proof -
  assume "\<forall>p\<in>set ps. 0 < p"
  then have "map flog ps = map Fin (map ln ps)" by (simp add: flog_def)
  then show ?thesis by (simp only: fsum_Fin)
qed

lemma foldl_fadd_NInf:
  "\<forall>p\<in>set ps. 0 \<le> p \<Longrightarrow> foldl fadd NInf (map flog ps) = NInf"
  by (induction ps) (simp_all add: flog_def)

lemma foldl_fadd_flog_zero:
  "\<forall>p\<in>set ps. 0 \<le> p \<Longrightarrow> 0 \<in> set ps \<Longrightarrow> foldl fadd (Fin a) (map flog ps) = NInf"
proof (induction ps arbitrary: a)
  case Nil
  then show ?case by simp
next
  case (Cons p ps)
  show ?case
  proof (cases "p = 0")
    case True
    have "flog 0 = NInf" by (simp add: flog_def)
    then show ?thesis using True Cons.prems(1) by (simp add: foldl_fadd_NInf)
  next
    case False
    then have "0 < p" and "0 \<in> set ps" using Cons.prems by auto
    then show ?thesis using Cons.IH [of "a + ln p"] Cons.prems(1) by (simp add: flog_def)
  qed
qed

lemma exp_ge_even_taylor:
  fixes x :: real
  assumes "even n"
  shows "(\<Sum>m<n. x ^ m / fact m) \<le> exp x"
proof -
  obtain t where "exp x = (\<Sum>m<n. x ^ m / fact m) + (exp t / fact n) * x ^ n"
    using Maclaurin_exp_le [of x n] by blast
  moreover have "0 \<le> (exp t / fact n) * x ^ n"
    using assms by (simp add: zero_le_power_eq)
  ultimately show ?thesis by simp
qed

lemma ln_lower: "(53 / 25 :: real) < ln (25 / 3)"
proof -
  have "(3 / 25 :: real) < (\<Sum>m<14. (- (53 / 25)) ^ m / fact m)"
    by (simp add: lessThan_nat_numeral lessThan_Suc fact_numeral power_divide)
  also have "\<dots> \<le> exp (- (53 / 25))" by (rule exp_ge_even_taylor) simp
  finally have "exp (53 / 25 :: real) < 25 / 3"
    by (simp add: exp_minus field_simps)
  then have "exp (53 / 25 :: real) < exp (ln (25 / 3))" by simp
  then show ?thesis by (simp only: exp_less_cancel_iff)
qed

lemma ln_upper: "ln (25 / 3) < (4241 / 2000 :: real)"
proof -
  have "(25 / 3 :: real) < (\<Sum>m<12. (4241 / 2000) ^ m / fact m)"
    by (simp add: lessThan_nat_numeral lessThan_Suc fact_numeral power_divide)
  also have "\<dots> \<le> exp (4241 / 2000)" by (rule exp_ge_even_taylor) simp
  finally have "exp (ln (25 / 3)) < exp (4241 / 2000 :: real)" by simp
  then show ?thesis by (simp only: exp_less_cancel_iff)
qed

lemma fisher_example:
  "- 2 * (ln (1 / 2) + ln (3 / 10) + ln (4 / 5)) = 2 * ln (25 / 3 :: real)"
proof -
  have "ln (1 / 2) + ln (3 / 10) + ln (4 / 5) = ln ((1 / 2) * (3 / 10) * (4 / 5 :: real))"
    by (simp only: ln_mult) simp
  also have "\<dots> = ln (inverse (25 / 3))" by simp
  also have "\<dots> = - ln (25 / 3 :: real)" by (rule ln_inverse)
  finally show ?thesis by simp
qed

lemma fisher_example_bounds:
  "(424 / 100 :: real) < - 2 * (ln (1 / 2) + ln (3 / 10) + ln (4 / 5)) \<and>
   - 2 * (ln (1 / 2) + ln (3 / 10) + ln (4 / 5)) < (4241 / 1000 :: real)"
  unfolding fisher_example using ln_lower ln_upper by simp

lemma combine_example:
  "combine_pvalues [Scalar (1 / 2), Scalar (3 / 10), Scalar (4 / 5)] ''fisher'' =
     Inr [Chi2_sf (Fin (- 2 * (ln (1 / 2) + ln (3 / 10) + ln (4 / 5)))) 6]"
  using combine_scalars [of "[1 / 2, 3 / 10, 4 / 5]"]
  by (simp add: fsum_def flog_def)

text \<open>
  C2, as the code has it. For p-values in \<open>(0, 1]\<close>, at least one, passed as a flat
  collection, the Combiner hands all of them at once to
  \<^verbatim>\<open>stats.combine_pvalues\<close>, whose Fisher statistic is \<open>-2 * sum(ln p)\<close>, compared with
  the chi-square distribution with \<open>2k\<close> degrees of freedom. For \<open>[0.5, 0.3, 0.8]\<close> the
  statistic is \<open>-2 * (ln 0.5 + ln 0.3 + ln 0.8)\<close>, which is 4.2405 to four decimals, with
  6 degrees of freedom.
\<close>

theorem fisher_combination:
  "(ps \<noteq> [] \<and> (\<forall>p\<in>set ps. 0 < p \<and> p \<le> 1) \<longrightarrow>
      combine_pvalues (map Scalar ps) ''fisher'' =
        Inr [Chi2_sf (Fin (- 2 * (\<Sum>p\<leftarrow>ps. ln p))) (2 * int (length ps))]) \<and>
   combine_pvalues [Scalar (1 / 2), Scalar (3 / 10), Scalar (4 / 5)] ''fisher'' =
     Inr [Chi2_sf (Fin (- 2 * (ln (1 / 2) + ln (3 / 10) + ln (4 / 5)))) 6] \<and>
   \<bar>- 2 * (ln (1 / 2) + ln (3 / 10) + ln (4 / 5)) - 42405 / 10000\<bar> < (1 / 2000 :: real)"
proof (intro conjI impI)
  assume a: "ps \<noteq> [] \<and> (\<forall>p\<in>set ps. 0 < p \<and> p \<le> 1)"
  then have "fsum (map flog ps) = Fin (\<Sum>p\<leftarrow>ps. ln p)" by (intro fsum_flog_pos) simp
  then show "combine_pvalues (map Scalar ps) ''fisher'' =
        Inr [Chi2_sf (Fin (- 2 * (\<Sum>p\<leftarrow>ps. ln p))) (2 * int (length ps))]"
    using a combine_scalars [of ps] by simp
next
  show "combine_pvalues [Scalar (1 / 2), Scalar (3 / 10), Scalar (4 / 5)] ''fisher'' =
     Inr [Chi2_sf (Fin (- 2 * (ln (1 / 2) + ln (3 / 10) + ln (4 / 5)))) 6]"
    by (rule combine_example)
next
  show "\<bar>- 2 * (ln (1 / 2) + ln (3 / 10) + ln (4 / 5)) - 42405 / 10000\<bar> < (1 / 2000 :: real)"
    using fisher_example_bounds by linarith
qed

theorem fisher_combination_witness:
  "[1 / 2, 3 / 10, 4 / 5] \<noteq> ([] :: real list) \<and>
   (0 < (1 / 2 :: real) \<and> (1 / 2 :: real) \<le> 1) \<and>
   (0 < (3 / 10 :: real) \<and> (3 / 10 :: real) \<le> 1) \<and>
   (0 < (4 / 5 :: real) \<and> (4 / 5 :: real) \<le> 1) \<and>
   combine_pvalues (map Scalar [1 / 2, 3 / 10, 4 / 5]) ''fisher'' =
     Inr [Chi2_sf (Fin (- 2 * (ln (1 / 2) + ln (3 / 10) + ln (4 / 5))))
            (2 * int (length [1 / 2, 3 / 10, 4 / 5 :: real]))]"
proof -
  have h: "[1 / 2, 3 / 10, 4 / 5] \<noteq> ([] :: real list) \<and>
           (\<forall>p\<in>set [1 / 2, 3 / 10, 4 / 5 :: real]. 0 < p \<and> p \<le> 1)" by simp
  have "combine_pvalues (map Scalar [1 / 2, 3 / 10, 4 / 5]) ''fisher'' =
          Inr [Chi2_sf (Fin (- 2 * (\<Sum>p\<leftarrow>[1 / 2, 3 / 10, 4 / 5]. ln p)))
                 (2 * int (length [1 / 2, 3 / 10, 4 / 5 :: real]))]"
    using h fisher_combination [of "[1 / 2, 3 / 10, 4 / 5]"] by blast
  then show ?thesis by simp
qed

text \<open>
  C2, as the specification states it, gives the value 4.2485 for that statistic, which is
  off by more than 0.007.
\<close>

theorem fisher_combination_counterexample:
  "combine_pvalues [Scalar (1 / 2), Scalar (3 / 10), Scalar (4 / 5)] ''fisher'' =
     Inr [Chi2_sf (Fin (- 2 * (ln (1 / 2) + ln (3 / 10) + ln (4 / 5)))) 6] \<and>
   7 / 1000 < \<bar>- 2 * (ln (1 / 2) + ln (3 / 10) + ln (4 / 5)) - (42485 / 10000 :: real)\<bar>"
proof
  show "combine_pvalues [Scalar (1 / 2), Scalar (3 / 10), Scalar (4 / 5)] ''fisher'' =
     Inr [Chi2_sf (Fin (- 2 * (ln (1 / 2) + ln (3 / 10) + ln (4 / 5)))) 6]"
    by (rule combine_example)
  show "7 / 1000 < \<bar>- 2 * (ln (1 / 2) + ln (3 / 10) + ln (4 / 5)) - (42485 / 10000 :: real)\<bar>"
    using fisher_example_bounds by linarith
qed

text \<open>
  C6, as the code has it. For a flat collection of p-values, none negative, that
  contains 0, the Combiner raises nothing: the logarithm of 0 is \<open>-inf\<close>, the Fisher
  statistic \<open>+inf\<close>, and the result is \<^verbatim>\<open>stats.chi2.sf(inf, 2k)\<close>.
\<close>

theorem combine_pvalues_zero:
  assumes "0 \<in> set ps" and "\<forall>p\<in>set ps. 0 \<le> p"
  shows "combine_pvalues (map Scalar ps) ''fisher'' = Inr [Chi2_sf PInf (2 * int (length ps))]"
proof -
  have ne: "ps \<noteq> []" using assms(1) by auto
  have "fsum (map flog ps) = NInf"
    unfolding fsum_def using foldl_fadd_flog_zero [OF assms(2,1)] .
  then show ?thesis using combine_scalars [OF ne] by simp
qed

theorem combine_pvalues_zero_witness:
  "(0::real) \<in> set [1, 0] \<and> (0::real) \<le> 1 \<and> (0::real) \<le> 0 \<and>
   combine_pvalues (map Scalar [1, 0]) ''fisher'' =
     Inr [Chi2_sf PInf (2 * int (length [1, 0 :: real]))]"
proof -
  have h1: "(0::real) \<in> set [1, 0]" and h2: "\<forall>p\<in>set [1, 0 :: real]. 0 \<le> p" by simp_all
  show ?thesis using h1 combine_pvalues_zero [OF h1 h2] by simp
qed

text \<open>
  C6, as the specification states it, fails at its own example \<open>[0.5, 0.0, 0.2]\<close>: a
  combined value is returned.
\<close>

theorem combine_pvalues_zero_counterexample:
  "combine_pvalues [Scalar (1 / 2), Scalar 0, Scalar (1 / 5)] ''fisher'' = Inr [Chi2_sf PInf 6]"
  by (simp add: combine_pvalues_def vstack_def T_def scipy_combine_pvalues_def fsum_def flog_def eval_upt)

subsection \<open>The goodness-of-fit test\<close>

text \<open>
  C10. Whatever the sample, a selector outside the enumerated set
  \<^verbatim>\<open>('norm', 'expon', 'logistic', 'gumbel', 'extreme1')\<close> makes the Anderson-Darling test
  fail: the guard on its first line raises (Python's \<^verbatim>\<open>AssertionError\<close>, the failure
  the specification names \<^verbatim>\<open>UnsupportedDistributionError\<close>), before the sample is
  looked at.
\<close>

theorem anderson_darling_unsupported:
  "distribution \<notin> set recognized \<Longrightarrow>
     anderson_darling times' distribution significance verbose = ([], Inl AssertionError)"
  by (simp add: anderson_darling_def)

theorem anderson_darling_unsupported_witness:
  "''weibull'' \<notin> set recognized \<and>
   anderson_darling [1, 2, 4] ''weibull'' 5 True = ([], Inl AssertionError)"
  using anderson_darling_unsupported [of "''weibull''" "[1, 2, 4]" 5 True]
  by (simp add: recognized_def)

end
